theory Spec2Isabelle
  imports Main "HOL-Library.Word" "HOL-Library.Sublist"
begin

section \<open>Python values used by the UPNP responder\<close>

text \<open>
  A Python \<open>str\<close> is a sequence of Unicode code points, a \<open>bytes\<close> object a sequence
  of octets. An address as returned by \<open>recvfrom\<close> is a pair of host and port.
\<close>

type_synonym pystr = "nat list"
type_synonym byte = "8 word"
type_synonym pybytes = "byte list"
type_synonym addr = "pystr \<times> nat"

definition ustr :: "string \<Rightarrow> pystr" where
  "ustr s = map of_char s"

definition LF :: nat where "LF = 10"
definition CR :: nat where "CR = 13"

subsection \<open>\<open>str.replace("\n", "\r\n")\<close>\<close>

fun replace_lf :: "pystr \<Rightarrow> pystr" where
  "replace_lf [] = []"
| "replace_lf (c # cs) = (if c = LF then CR # LF # replace_lf cs else c # replace_lf cs)"

subsection \<open>\<open>str(int)\<close> as used by \<open>str.format\<close>\<close>

fun digits :: "nat \<Rightarrow> pystr" where
  "digits n = (if n < 10 then [48 + n] else digits (n div 10) @ [48 + n mod 10])"

declare digits.simps [simp del]

definition str_int :: "int \<Rightarrow> pystr" where
  "str_int i = (if i < 0 then 45 # digits (nat (- i)) else digits (nat i))"

subsection \<open>\<open>str.encode('utf-8')\<close>\<close>

datatype error = UnicodeEncodeError | ValueError | OSError | RuntimeError

definition encode_cp :: "nat \<Rightarrow> pybytes option" where
  "encode_cp c =
     (if c < 0x80 then Some [of_nat c]
      else if c < 0x800 then Some [of_nat (0xC0 + c div 64), of_nat (0x80 + c mod 64)]
      else if 0xD800 \<le> c \<and> c \<le> 0xDFFF then None
      else if c < 0x10000 then
        Some [of_nat (0xE0 + c div 4096), of_nat (0x80 + c div 64 mod 64),
              of_nat (0x80 + c mod 64)]
      else if c < 0x110000 then
        Some [of_nat (0xF0 + c div 262144), of_nat (0x80 + c div 4096 mod 64),
              of_nat (0x80 + c div 64 mod 64), of_nat (0x80 + c mod 64)]
      else None)"

fun encode_utf8 :: "pystr \<Rightarrow> error + pybytes" where
  "encode_utf8 [] = Inr []"
| "encode_utf8 (c # cs) =
     (case encode_cp c of
        None \<Rightarrow> Inl UnicodeEncodeError
      | Some bs \<Rightarrow> (case encode_utf8 cs of Inl e \<Rightarrow> Inl e | Inr rest \<Rightarrow> Inr (bs @ rest)))"

subsection \<open>\<open>bytes.decode('utf-8', errors='ignore')\<close>\<close>

definition is_cont :: "byte \<Rightarrow> bool" where
  "is_cont b = (0x80 \<le> b \<and> b \<le> 0xBF)"

definition cp2 :: "byte \<Rightarrow> byte \<Rightarrow> nat" where
  "cp2 b c = (unat b - 0xC0) * 64 + (unat c - 0x80)"

definition cp3 :: "byte \<Rightarrow> byte \<Rightarrow> byte \<Rightarrow> nat" where
  "cp3 b c d = (unat b - 0xE0) * 4096 + (unat c - 0x80) * 64 + (unat d - 0x80)"

definition cp4 :: "byte \<Rightarrow> byte \<Rightarrow> byte \<Rightarrow> byte \<Rightarrow> nat" where
  "cp4 b c d e =
     (unat b - 0xF0) * 262144 + (unat c - 0x80) * 4096 + (unat d - 0x80) * 64 + (unat e - 0x80)"

text \<open>
  The decoder of CPython, one step: the code point read (if any) and the number of bytes
  consumed. A byte that cannot start a sequence is dropped alone; a lead byte whose
  continuation is wrong is dropped together with the continuation bytes read so far,
  and decoding resumes at the offending byte; a sequence cut off by the end of the
  input is dropped whole. With \<open>errors='ignore'\<close> nothing is raised.
\<close>

definition decode_step :: "byte \<Rightarrow> pybytes \<Rightarrow> nat option \<times> nat" where
  "decode_step b bs =
     (if b < 0x80 then (Some (unat b), 1)
      else if b < 0xC2 then (None, 1)
      else if b < 0xE0 then
        (case bs of
           [] \<Rightarrow> (None, 1)
         | c # cs \<Rightarrow> if is_cont c then (Some (cp2 b c), 2) else (None, 1))
      else if b < 0xF0 then
        (case bs of
           [] \<Rightarrow> (None, 1)
         | c # cs \<Rightarrow>
             if \<not> is_cont c \<or> (if c < 0xA0 then b = 0xE0 else b = 0xED)
             then (None, 1)
             else (case cs of
                     [] \<Rightarrow> (None, 2)
                   | d # ds \<Rightarrow> if is_cont d then (Some (cp3 b c d), 3) else (None, 2)))
      else if b < 0xF5 then
        (case bs of
           [] \<Rightarrow> (None, 1)
         | c # cs \<Rightarrow>
             if \<not> is_cont c \<or> (if c < 0x90 then b = 0xF0 else b = 0xF4)
             then (None, 1)
             else (case cs of
                     [] \<Rightarrow> (None, 2)
                   | d # ds \<Rightarrow>
                       if \<not> is_cont d then (None, 2)
                       else (case ds of
                               [] \<Rightarrow> (None, 3)
                             | e # es \<Rightarrow>
                                 if is_cont e then (Some (cp4 b c d e), 4)
                                 else (None, 3))))
      else (None, 1))"

text \<open>
  The loop of the decoder. Every step consumes at least one byte (see
  \<open>decode_step_pos\<close> below); the count is guarded by \<open>Suc\<close> of its predecessor so
  that the recursion is well-founded by construction.
\<close>

function decode_ignore :: "pybytes \<Rightarrow> pystr" where
  "decode_ignore [] = []"
| "decode_ignore (b # bs) =
     (case decode_step b bs of
        (r, n) \<Rightarrow>
          (case r of None \<Rightarrow> [] | Some c \<Rightarrow> [c]) @ decode_ignore (drop (n - 1) bs))"
  by pat_completeness auto
termination
  by (relation "measure length") auto

subsection \<open>The operator \<open>in\<close> on strings\<close>

fun starts_with :: "pystr \<Rightarrow> pystr \<Rightarrow> bool" where
  "starts_with [] ys = True"
| "starts_with (x # xs) [] = False"
| "starts_with (x # xs) (y # ys) = (x = y \<and> starts_with xs ys)"

fun str_in :: "pystr \<Rightarrow> pystr \<Rightarrow> bool" where
  "str_in xs [] = starts_with xs []"
| "str_in xs (y # ys) = (starts_with xs (y # ys) \<or> str_in xs ys)"

definition M_SEARCH :: pystr where
  "M_SEARCH = ustr ''M-SEARCH''"


subsection \<open>\<open>str.format\<close> with positional fields\<close>

text \<open>
  Only the fields the template uses are modelled: an opening brace, one decimal digit
  naming an argument, a closing brace. Any other use of a brace is rejected.
\<close>

fun format_str :: "pystr \<Rightarrow> pystr list \<Rightarrow> pystr option" where
  "format_str [] args = Some []"
| "format_str (c # cs) args =
     (if c = 123 then
        (case cs of
           d # e # rest \<Rightarrow>
             if 48 \<le> d \<and> d \<le> 57 \<and> e = 125 \<and> d - 48 < length args
             then map_option ((@) (args ! (d - 48))) (format_str rest args)
             else None
         | _ \<Rightarrow> None)
      else if c = 125 then None
      else map_option ((#) c) (format_str cs args))"

section \<open>The responder object\<close>

record responder =
  host_ip_addr :: pystr
  listen_port :: int
  upnp_bind_multicast :: bool
  upnp_response :: pybytes
  interrupted :: bool

definition resp_template :: pystr where
  "resp_template =
     ustr ''HTTP/1.1 200 OK'' @ [LF] @
     ustr ''CACHE-CONTROL: max-age=60'' @ [LF] @
     ustr ''EXT:'' @ [LF] @
     ustr ''LOCATION: http://{0}:{1}/description.xml'' @ [LF] @
     ustr ''SERVER: FreeRTOS/6.0.5, UPnP/1.0, IpBridge/0.1'' @ [LF] @
     ustr ''hue-bridgeid: 1234'' @ [LF] @
     ustr ''ST: urn:schemas-upnp-org:device:basic:1'' @ [LF] @
     ustr ''USN: uuid:Socket-1_0-221438K0100073::urn:schemas-upnp-org:device:basic:1'' @ [LF] @
     [LF]"

definition make_response :: "pystr \<Rightarrow> int \<Rightarrow> error + pybytes" where
  "make_response advertise_ip advertise_port =
     (case format_str resp_template [advertise_ip, str_int advertise_port] of
        None \<Rightarrow> Inl ValueError
      | Some s \<Rightarrow> encode_utf8 (replace_lf s))"

definition init :: "pystr \<Rightarrow> int \<Rightarrow> bool \<Rightarrow> pystr \<Rightarrow> int \<Rightarrow> error + responder" where
  "init host_ip listen upnp_bind advertise_ip advertise_port =
     (case make_response advertise_ip advertise_port of
        Inl e \<Rightarrow> Inl e
      | Inr bs \<Rightarrow>
          Inr \<lparr>host_ip_addr = host_ip, listen_port = listen, upnp_bind_multicast = upnp_bind,
               upnp_response = bs, interrupted = False\<rparr>)"


section \<open>The environment of \<open>run\<close>\<close>

text \<open>
  What the program does to the outside world is recorded as a log of actions, oldest
  first. \<open>Ssdp\<close> is the listening socket, \<open>Resp\<close> a socket opened for one reply.
  \<open>SendTo\<close> records a datagram handed to the network by a \<open>sendto\<close> that returned,
  \<open>SendFailed\<close> a call of \<open>sendto\<close> that raised. \<open>Close\<close> is a call of
  \<open>close\<close>. \<open>Finalize\<close> is the interpreter closing a socket that nothing refers to
  any more: both sockets are locals of \<open>run\<close>, and when an exception leaves \<open>run\<close>
  its locals are discarded before the thread ends.
\<close>

datatype sock = Ssdp | Resp

datatype action =
    Open sock
  | SetBlocking bool
  | SetReuseAddr
  | SetMulticastIf pystr
  | AddMembership pystr pystr
  | Bind pystr nat
  | SendTo pybytes addr
  | SendFailed pybytes addr
  | Close sock
  | Finalize sock
  | LogInfo
  | LogError

text \<open>The system calls of the set-up; the environment decides which of them fail.\<close>

datatype init_step =
    CreateSocket | CallSetBlocking | CallReuseAddr | InetAton
  | CallMulticastIf | CallAddMembership | CallBind

text \<open>What the operating system does when a reply is attempted.\<close>

datatype send_outcome = SendOk | SocketFails | SendFails

text \<open>
  What one pass through the \<open>try\<close> block meets: \<open>select\<close> times out; or the socket
  is readable and \<open>recvfrom\<close> reads the datagram given, sent from the address given
  (the third argument is what the operating system will do if a reply is attempted);
  or \<open>select\<close> or \<open>recvfrom\<close> raises \<open>socket.error\<close>; or \<open>select\<close> raises an
  exception that is not a \<open>socket.error\<close> (\<open>ValueError\<close> for a descriptor beyond
  what \<open>select\<close> can take), which the \<open>except\<close> clause does not catch.
\<close>

datatype select_outcome =
    Timeout
  | Readable pybytes addr send_outcome
  | SockError
  | SelectRaises

text \<open>
  The points of control of the thread. \<open>AtTop\<close>: about to test the flag at the head
  of the loop. \<open>InSelect\<close>: the flag was read as clear and the thread is inside the
  \<open>try\<close> block. \<open>Stopped\<close>: \<open>run\<close> has returned. \<open>Died\<close>: an exception has
  left \<open>run\<close>.
\<close>

datatype phase = NotStarted | AtTop | InSelect | Stopped | Died error

record run_state =
  self :: responder
  phase :: phase
  log :: "action list"

text \<open>
  The schedule: \<open>Stop\<close> is the other thread writing the flag, \<open>Check\<close> the
  responder thread executing the test at the head of the loop, \<open>Select\<close> the
  responder thread executing the \<open>try\<close> block and what follows it.
\<close>

datatype event = Stop | Check | Select select_outcome

definition SSDP_GROUP :: pystr where
  "SSDP_GROUP = ustr ''239.255.255.250''"

definition emit :: "action list \<Rightarrow> run_state \<Rightarrow> run_state" where
  "emit as st = st\<lparr>log := log st @ as\<rparr>"

text \<open>
  An exception leaves \<open>run\<close>: the sockets its locals still hold are closed by the
  interpreter, and the thread ends.
\<close>

definition die :: "error \<Rightarrow> sock list \<Rightarrow> run_state \<Rightarrow> run_state" where
  "die e held st = (emit (map Finalize held) st)\<lparr>phase := Died e\<rparr>"

definition clean_socket_close :: "sock \<Rightarrow> run_state \<Rightarrow> run_state" where
  "clean_socket_close sk st = emit [LogInfo, Close sk] st"

subsection \<open>The set-up at the head of \<open>run\<close>\<close>

text \<open>
  The calls are made in the order of the source; the first that fails ends the thread.
  \<open>OSError\<close> stands for the exception of the failing call.
\<close>

definition run_init :: "(init_step \<Rightarrow> bool) \<Rightarrow> run_state \<Rightarrow> run_state" where
  "run_init fails st0 =
     (let host = host_ip_addr (self st0) in
      if fails CreateSocket then die OSError [] st0
      else let st1 = emit [Open Ssdp] st0 in
      if fails CallSetBlocking then die OSError [Ssdp] st1
      else let st2 = emit [SetBlocking False] st1 in
      if fails CallReuseAddr then die OSError [Ssdp] st2
      else let st3 = emit [SetReuseAddr] st2 in
      if fails InetAton then die OSError [Ssdp] st3
      else if fails CallMulticastIf then die OSError [Ssdp] st3
      else let st4 = emit [SetMulticastIf host] st3 in
      if fails CallAddMembership then die OSError [Ssdp] st4
      else let st5 = emit [AddMembership SSDP_GROUP host] st4 in
      if fails CallBind then die OSError [Ssdp] st5
      else if upnp_bind_multicast (self st0)
        then (emit [Bind [] 1900] st5)\<lparr>phase := AtTop\<rparr>
        else (emit [Bind host 1900] st5)\<lparr>phase := AtTop\<rparr>)"

subsection \<open>The loop of \<open>run\<close>\<close>

definition recvfrom :: "nat \<Rightarrow> pybytes \<Rightarrow> pybytes" where
  "recvfrom bufsize datagram = take bufsize datagram"

definition respond :: "addr \<Rightarrow> send_outcome \<Rightarrow> run_state \<Rightarrow> run_state" where
  "respond a so st =
     (case so of
        SocketFails \<Rightarrow> die OSError [Ssdp] st
      | SendFails \<Rightarrow>
          die OSError [Ssdp, Resp]
            (emit [Open Resp, SendFailed (upnp_response (self st)) a] st)
      | SendOk \<Rightarrow>
          (emit [Open Resp, SendTo (upnp_response (self st)) a, Close Resp] st)
            \<lparr>phase := AtTop\<rparr>)"

definition handle :: "pybytes \<Rightarrow> addr \<Rightarrow> send_outcome \<Rightarrow> run_state \<Rightarrow> run_state" where
  "handle data a so st =
     (if str_in M_SEARCH (decode_ignore data) then respond a so st
      else st\<lparr>phase := AtTop\<rparr>)"

definition check_top :: "run_state \<Rightarrow> run_state" where
  "check_top st =
     (if interrupted (self st) then (clean_socket_close Ssdp st)\<lparr>phase := Stopped\<rparr>
      else st\<lparr>phase := InSelect\<rparr>)"

fun select_step :: "select_outcome \<Rightarrow> run_state \<Rightarrow> run_state" where
  "select_step Timeout st = st\<lparr>phase := AtTop\<rparr>"
| "select_step (Readable datagram a so) st = handle (recvfrom 1024 datagram) a so st"
| "select_step SockError st =
     (if interrupted (self st) then (clean_socket_close Ssdp st)\<lparr>phase := Stopped\<rparr>
      else (emit [LogError] st)\<lparr>phase := AtTop\<rparr>)"
| "select_step SelectRaises st = die ValueError [Ssdp] st"

definition set_interrupted :: "run_state \<Rightarrow> run_state" where
  "set_interrupted st = st\<lparr>self := (self st)\<lparr>interrupted := True\<rparr>\<rparr>"

text \<open>
  One event of the schedule. \<open>None\<close>: the event is not what the thread does next, so
  the schedule is not one of the program.
\<close>

fun step :: "run_state \<Rightarrow> event \<Rightarrow> run_state option" where
  "step st Stop = Some (set_interrupted st)"
| "step st Check = (if phase st = AtTop then Some (check_top st) else None)"
| "step st (Select out) = (if phase st = InSelect then Some (select_step out st) else None)"

fun exec :: "run_state \<Rightarrow> event list \<Rightarrow> run_state option" where
  "exec st [] = Some st"
| "exec st (e # es) = (case step st e of None \<Rightarrow> None | Some st' \<Rightarrow> exec st' es)"

subsection \<open>The thread object: \<open>start\<close>, \<open>join\<close>, \<open>stop\<close>\<close>

definition new_thread :: "responder \<Rightarrow> run_state" where
  "new_thread r = \<lparr>self = r, phase = NotStarted, log = []\<rparr>"

definition exited :: "run_state \<Rightarrow> bool" where
  "exited st = (case phase st of Stopped \<Rightarrow> True | Died e \<Rightarrow> True | _ \<Rightarrow> False)"

text \<open>
  \<open>Thread.start\<close> returns to its caller once the thread is launched; the body of
  \<open>run\<close> executes in the new thread, and an exception leaving it ends that thread
  only. Starting a thread twice raises \<open>RuntimeError\<close>.
\<close>

definition start :: "(init_step \<Rightarrow> bool) \<Rightarrow> run_state \<Rightarrow> error + run_state" where
  "start fails st =
     (if phase st = NotStarted then Inr (run_init fails st)
      else Inl RuntimeError)"

text \<open>
  \<open>Thread.join\<close> blocks until the thread has ended, whatever ended it, and returns
  nothing; on a thread never started it raises \<open>RuntimeError\<close>. The events are what
  the responder thread does while the caller waits; \<open>None\<close> means that the caller is
  still waiting when they are used up (or that they are no schedule of the program).
\<close>

fun join :: "run_state \<Rightarrow> event list \<Rightarrow> (error + run_state) option" where
  "join st es =
     (if phase st = NotStarted then Some (Inl RuntimeError)
      else if exited st then Some (Inr st)
      else (case es of
              [] \<Rightarrow> None
            | e # es' \<Rightarrow> (case step st e of None \<Rightarrow> None | Some st' \<Rightarrow> join st' es')))"

declare join.simps [simp del]

definition stop :: "run_state \<Rightarrow> event list \<Rightarrow> (error + run_state) option" where
  "stop st es = join (set_interrupted st) es"

subsection \<open>Reading the log\<close>

fun replies :: "action list \<Rightarrow> (pybytes \<times> addr) list" where
  "replies [] = []"
| "replies (SendTo bs a # as) = (bs, a) # replies as"
| "replies (_ # as) = replies as"

definition opened :: "sock \<Rightarrow> action list \<Rightarrow> nat" where
  "opened sk as = count_list as (Open sk)"

definition closed :: "sock \<Rightarrow> action list \<Rightarrow> nat" where
  "closed sk as = count_list as (Close sk)"

definition finalized :: "sock \<Rightarrow> action list \<Rightarrow> nat" where
  "finalized sk as = count_list as (Finalize sk)"

text \<open>How often a descriptor has been given back, by \<open>close\<close> or by the interpreter.\<close>

definition released :: "sock \<Rightarrow> action list \<Rightarrow> nat" where
  "released sk as = closed sk as + finalized sk as"



subsection \<open>Concrete data used to exercise the theorems\<close>

definition example_responder :: responder where
  "example_responder =
     \<lparr>host_ip_addr = ustr ''192.168.1.2'', listen_port = 1900, upnp_bind_multicast = True,
      upnp_response = [0x4F, 0x4B], interrupted = False\<rparr>"

definition example_listening :: run_state where
  "example_listening =
     \<lparr>self = example_responder, phase = InSelect, log = [Open Ssdp, Bind [] 1900]\<rparr>"

definition example_addr :: addr where
  "example_addr = (ustr ''192.168.1.50'', 5353)"

definition ascii_bytes :: "string \<Rightarrow> pybytes" where
  "ascii_bytes s = map of_char s"

definition msearch_datagram :: pybytes where
  "msearch_datagram = ascii_bytes ''M-SEARCH * HTTP/1.1''"

definition notify_datagram :: pybytes where
  "notify_datagram = ascii_bytes ''NOTIFY * HTTP/1.1''"

text \<open>\<open>n\<close> passes of the loop in each of which \<open>select\<close> raises.\<close>

fun error_rounds :: "nat \<Rightarrow> event list" where
  "error_rounds 0 = []"
| "error_rounds (Suc n) = Select SockError # Check # error_rounds n"

definition with_listen_port :: "int \<Rightarrow> run_state \<Rightarrow> run_state" where
  "with_listen_port q st = st\<lparr>self := (self st)\<lparr>listen_port := q\<rparr>\<rparr>"

definition no_failure :: "init_step \<Rightarrow> bool" where
  "no_failure s = False"

subsection \<open>\<open>bytes.decode('utf-8')\<close> with the default, strict error handling\<close>

text \<open>
  The same decoder raising \<open>UnicodeDecodeError\<close> (here \<open>None\<close>) at the first byte
  it cannot decode. A payload is valid UTF-8 text exactly if this returns a string.
\<close>

function decode_strict :: "pybytes \<Rightarrow> pystr option" where
  "decode_strict [] = Some []"
| "decode_strict (b # bs) =
     (case decode_step b bs of
        (r, n) \<Rightarrow>
          (case r of
             None \<Rightarrow> None
           | Some c \<Rightarrow> map_option ((#) c) (decode_strict (drop (n - 1) bs))))"
  by pat_completeness auto
termination
  by (relation "measure length") auto

definition bad_datagram :: pybytes where
  "bad_datagram = 0xFF # msearch_datagram"

definition noise_datagram :: pybytes where
  "noise_datagram = [0xFF, 0xFE, 0x4E, 0x4F]"

definition far_datagram :: pybytes where
  "far_datagram = replicate 1024 0x20 @ msearch_datagram"

subsection \<open>Reading the reply\<close>

text \<open>The template before the field \<open>{0}\<close> and after the field \<open>{1}\<close>.\<close>

definition template_head :: pystr where
  "template_head =
     ustr ''HTTP/1.1 200 OK'' @ [LF] @
     ustr ''CACHE-CONTROL: max-age=60'' @ [LF] @
     ustr ''EXT:'' @ [LF] @
     ustr ''LOCATION: http://''"

definition template_tail :: pystr where
  "template_tail =
     ustr ''/description.xml'' @ [LF] @
     ustr ''SERVER: FreeRTOS/6.0.5, UPnP/1.0, IpBridge/0.1'' @ [LF] @
     ustr ''hue-bridgeid: 1234'' @ [LF] @
     ustr ''ST: urn:schemas-upnp-org:device:basic:1'' @ [LF] @
     ustr ''USN: uuid:Socket-1_0-221438K0100073::urn:schemas-upnp-org:device:basic:1'' @ [LF] @
     [LF]"

text \<open>The code points a Python string can be encoded from: no surrogates.\<close>

definition valid_cp :: "nat \<Rightarrow> bool" where
  "valid_cp c = (c < 0xD800 \<or> (0xDFFF < c \<and> c < 0x110000))"

text \<open>Every byte \<open>0x0A\<close> directly follows a byte \<open>0x0D\<close>; the first argument is the byte before.\<close>

fun crlf_only :: "byte \<Rightarrow> pybytes \<Rightarrow> bool" where
  "crlf_only p [] = True"
| "crlf_only p (b # bs) = ((b = 0x0A \<longrightarrow> p = 0x0D) \<and> crlf_only b bs)"

definition no_bare_lf :: "pybytes \<Rightarrow> bool" where
  "no_bare_lf bs = crlf_only 0 bs"

definition CRLF :: pybytes where
  "CRLF = [0x0D, 0x0A]"

fun crlf_lines :: "string list \<Rightarrow> pybytes" where
  "crlf_lines [] = []"
| "crlf_lines (l # ls) = ascii_bytes l @ CRLF @ crlf_lines ls"

definition expected_reply :: pybytes where
  "expected_reply =
     crlf_lines
       [''HTTP/1.1 200 OK'',
        ''CACHE-CONTROL: max-age=60'',
        ''EXT:'',
        ''LOCATION: http://10.0.0.5:8300/description.xml'',
        ''SERVER: FreeRTOS/6.0.5, UPnP/1.0, IpBridge/0.1'',
        ''hue-bridgeid: 1234'',
        ''ST: urn:schemas-upnp-org:device:basic:1'',
        ''USN: uuid:Socket-1_0-221438K0100073::urn:schemas-upnp-org:device:basic:1'',
        '''']"

text \<open>The reply as it is expected on the wire, before and after the two fields.\<close>

definition reply_head :: pybytes where
  "reply_head =
     crlf_lines [''HTTP/1.1 200 OK'', ''CACHE-CONTROL: max-age=60'', ''EXT:''] @
     ascii_bytes ''LOCATION: http://''"

definition reply_tail :: pybytes where
  "reply_tail =
     ascii_bytes ''/description.xml'' @ CRLF @
     crlf_lines
       [''SERVER: FreeRTOS/6.0.5, UPnP/1.0, IpBridge/0.1'',
        ''hue-bridgeid: 1234'',
        ''ST: urn:schemas-upnp-org:device:basic:1'',
        ''USN: uuid:Socket-1_0-221438K0100073::urn:schemas-upnp-org:device:basic:1'',
        '''']"

definition built_responder :: "pystr \<Rightarrow> int \<Rightarrow> bool \<Rightarrow> responder" where
  "built_responder h l b =
     \<lparr>host_ip_addr = h, listen_port = l, upnp_bind_multicast = b,
      upnp_response = expected_reply, interrupted = False\<rparr>"

definition answered_once :: "action list" where
  "answered_once =
     [Open Ssdp, SetBlocking False, SetReuseAddr, SetMulticastIf (ustr ''192.168.1.2''),
      AddMembership SSDP_GROUP (ustr ''192.168.1.2''), Bind [] 1900,
      Open Resp, SendTo expected_reply example_addr, Close Resp]"

text \<open>An environment in which only \<open>bind\<close> fails, and the thread it leaves behind.\<close>

definition bind_fails :: "init_step \<Rightarrow> bool" where
  "bind_fails s = (s = CallBind)"

definition died_at_bind :: run_state where
  "died_at_bind =
     \<lparr>self = example_responder, phase = Died OSError,
      log = [Open Ssdp, SetBlocking False, SetReuseAddr, SetMulticastIf (ustr ''192.168.1.2''),
        AddMembership SSDP_GROUP (ustr ''192.168.1.2''), Finalize Ssdp]\<rparr>"

text \<open>
  What holds of the listening socket at each point of control of a started thread:
  while the loop runs it has been opened once and not given back; after \<open>run\<close> has
  returned the flag is set and the socket has been opened once and closed once; after
  an exception has left \<open>run\<close> the socket, if it was opened, has been given back
  by the interpreter.
\<close>

definition thread_inv :: "run_state \<Rightarrow> bool" where
  "thread_inv st =
     (case phase st of
        NotStarted \<Rightarrow> False
      | AtTop \<Rightarrow> opened Ssdp (log st) = 1 \<and> released Ssdp (log st) = 0
      | InSelect \<Rightarrow> opened Ssdp (log st) = 1 \<and> released Ssdp (log st) = 0
      | Stopped \<Rightarrow>
          interrupted (self st) \<and> opened Ssdp (log st) = 1 \<and> closed Ssdp (log st) = 1 \<and>
          finalized Ssdp (log st) = 0
      | Died e \<Rightarrow>
          opened Ssdp (log st) \<le> 1 \<and> closed Ssdp (log st) = 0 \<and>
          finalized Ssdp (log st) = opened Ssdp (log st))"

text \<open>The events in which a call raises an exception that \<open>run\<close> does not catch.\<close>

fun raises :: "event \<Rightarrow> bool" where
  "raises (Select (Readable d a SendFails)) = True"
| "raises (Select (Readable d a SocketFails)) = True"
| "raises (Select SelectRaises) = True"
| "raises _ = False"

text \<open>The thread after a \<open>sendto\<close> has raised while the loop was running.\<close>

definition died_at_send :: run_state where
  "died_at_send =
     \<lparr>self = example_responder, phase = Died OSError,
      log = [Open Ssdp, SetBlocking False, SetReuseAddr, SetMulticastIf (ustr ''192.168.1.2''),
        AddMembership SSDP_GROUP (ustr ''192.168.1.2''), Bind [] 1900, Open Resp,
        SendFailed [0x4F, 0x4B] example_addr, Finalize Ssdp, Finalize Resp]\<rparr>"

text \<open>A thread started without failure that has passed the test of the flag once.\<close>

definition example_waiting :: run_state where
  "example_waiting =
     \<lparr>self = example_responder, phase = InSelect,
      log = [Open Ssdp, SetBlocking False, SetReuseAddr, SetMulticastIf (ustr ''192.168.1.2''),
        AddMembership SSDP_GROUP (ustr ''192.168.1.2''), Bind [] 1900]\<rparr>"

text \<open>
  A datagram in which the bytes of "M-SEARCH" first stand at offset 1024, while the first
  1024 bytes hold them with one byte in between that cannot be decoded.
\<close>

definition tricky_datagram :: pybytes where
  "tricky_datagram =
     ascii_bytes ''M-SE'' @ [0xFF] @ ascii_bytes ''ARCH'' @ replicate 1015 0x20 @ msearch_datagram"


text \<open>The thread after \<open>select\<close> has raised an exception that is not caught.\<close>

definition died_at_select :: run_state where
  "died_at_select =
     \<lparr>self = example_responder, phase = Died ValueError,
      log = [Open Ssdp, SetBlocking False, SetReuseAddr, SetMulticastIf (ustr ''192.168.1.2''),
        AddMembership SSDP_GROUP (ustr ''192.168.1.2''), Bind [] 1900, Finalize Ssdp]\<rparr>"

subsection \<open>Decimal numerals\<close>

text \<open>
  What it means for a string to be the decimal numeral of a number: it is a non-empty
  string of digits, without a leading zero unless it is the single digit zero, and
  read from the left it has that value.
\<close>

definition is_digit :: "nat \<Rightarrow> bool" where
  "is_digit c = (48 \<le> c \<and> c \<le> 57)"

definition decimal_value :: "pystr \<Rightarrow> nat" where
  "decimal_value s = foldl (\<lambda>v c. 10 * v + (c - 48)) 0 s"

definition canonical_decimal :: "pystr \<Rightarrow> bool" where
  "canonical_decimal s = (s \<noteq> [] \<and> list_all is_digit s \<and> (s = [48] \<or> 48 < hd s))"
section \<open>Properties\<close>


subsection \<open>Helper lemmas on the log\<close>

lemma replies_append: "replies (xs @ ys) = replies xs @ replies ys"
  by (induction xs rule: replies.induct) simp_all

lemma log_emit: "log (emit as st) = log st @ as"
  by (simp add: emit_def)

lemma self_emit: "self (emit as st) = self st"
  by (simp add: emit_def)

lemma phase_emit: "phase (emit as st) = phase st"
  by (simp add: emit_def)

lemma log_die: "log (die e held st) = log st @ map Finalize held"
  by (simp add: die_def emit_def)

lemma self_die: "self (die e held st) = self st"
  by (simp add: die_def emit_def)

lemma phase_die: "phase (die e held st) = Died e"
  by (simp add: die_def)

lemmas state_simps = log_emit self_emit phase_emit log_die self_die phase_die

lemma replies_Finalize: "replies (map Finalize held) = []"
  by (induction held) simp_all






lemma msearch_datagram_matches:
  "str_in M_SEARCH (decode_ignore (recvfrom 1024 msearch_datagram))"
  by code_simp

lemma notify_datagram_no_match:
  "\<not> str_in M_SEARCH (decode_ignore (recvfrom 1024 notify_datagram))"
  by code_simp


subsection \<open>What the decoder keeps and what it drops\<close>

lemma decode_step_bound: "0 < snd (decode_step b bs) \<and> snd (decode_step b bs) \<le> Suc (length bs)"
  by (simp add: decode_step_def split: list.splits)

lemma decode_step_ext:
  assumes "\<not> is_cont a"
  shows "decode_step b (bs @ a # ys) = decode_step b bs"
proof (cases bs)
  case Nil
  then show ?thesis using assms by (simp add: decode_step_def)
next
  case (Cons c cs)
  note bs = this
  show ?thesis
  proof (cases cs)
    case Nil
    then show ?thesis using assms bs by (simp add: decode_step_def)
  next
    case (Cons d ds)
    note cs = this
    show ?thesis
    proof (cases ds)
      case Nil
      then show ?thesis using assms bs cs by (simp add: decode_step_def)
    next
      case (Cons e es)
      then show ?thesis using bs cs by (simp add: decode_step_def)
    qed
  qed
qed

lemma decode_step_take:
  assumes "decode_step b bs = (Some c, n)"
  shows "decode_step b (take (n - 1) bs @ zs) = (Some c, n)"
proof -
  consider "n = 1" | "n = 2" | "n = 3" | "n = 4"
    using assms by (auto simp add: decode_step_def split: if_splits list.splits)
  then show ?thesis
  proof cases
    case 1
    then show ?thesis
      using assms by (auto simp add: decode_step_def split: if_splits list.splits)
  next
    case 2
    then show ?thesis
      using assms by (auto simp add: decode_step_def split: if_splits list.splits)
  next
    case 3
    then show ?thesis
      using assms by (auto simp add: decode_step_def numeral_3_eq_3 split: if_splits list.splits)
  next
    case 4
    then have "n - 1 = Suc (Suc (Suc 0))" by simp
    then show ?thesis
      using assms 4 by (auto simp add: decode_step_def split: if_splits list.splits)
  qed
qed

lemma decode_ignore_Cons:
  "decode_ignore (b # bs) =
     (case fst (decode_step b bs) of None \<Rightarrow> [] | Some c \<Rightarrow> [c]) @
     decode_ignore (drop (snd (decode_step b bs) - 1) bs)"
  by (simp add: case_prod_beta)

lemma decode_strict_Cons:
  "decode_strict (b # bs) =
     (case fst (decode_step b bs) of
        None \<Rightarrow> None
      | Some c \<Rightarrow> map_option ((#) c) (decode_strict (drop (snd (decode_step b bs) - 1) bs)))"
  by (simp add: case_prod_beta)

text \<open>
  Decoding can be cut in front of any byte that is not a continuation byte: what
  comes before such a byte is decoded as if the input ended there.
\<close>

lemma decode_ignore_split:
  assumes "\<not> is_cont a"
  shows "decode_ignore (xs @ a # ys) = decode_ignore xs @ decode_ignore (a # ys)"
proof (induction xs rule: length_induct)
  case (1 xs)
  show ?case
  proof (cases xs)
    case Nil
    then show ?thesis by simp
  next
    case (Cons b bs)
    let ?n = "snd (decode_step b bs)"
    have ext: "decode_step b (bs @ a # ys) = decode_step b bs"
      using assms by (rule decode_step_ext)
    have n: "?n - 1 \<le> length bs"
      using decode_step_bound [of b bs] by linarith
    then have dr: "drop (?n - 1) (bs @ a # ys) = drop (?n - 1) bs @ a # ys"
      by simp
    have "length (drop (?n - 1) bs) < length xs"
      using Cons by simp
    then have ih: "decode_ignore (drop (?n - 1) bs @ a # ys) =
        decode_ignore (drop (?n - 1) bs) @ decode_ignore (a # ys)"
      using "1.IH" by blast
    have "decode_ignore ((b # bs) @ a # ys) =
        (case fst (decode_step b bs) of None \<Rightarrow> [] | Some c \<Rightarrow> [c]) @
        decode_ignore (drop (?n - 1) bs @ a # ys)"
      using decode_ignore_Cons [of b "bs @ a # ys"] by (simp only: append_Cons ext dr)
    also have "\<dots> = decode_ignore (b # bs) @ decode_ignore (a # ys)"
      unfolding ih using decode_ignore_Cons [of b bs] by simp
    finally show ?thesis using Cons by simp
  qed
qed

lemma ascii_not_cont: "a < 0x80 \<Longrightarrow> \<not> is_cont a"
  using leD by (auto simp add: is_cont_def)

lemma decode_step_ascii: "a < 0x80 \<Longrightarrow> decode_step a ys = (Some (unat a), 1)"
  by (simp add: decode_step_def)

lemma decode_ignore_ascii_Cons: "a < 0x80 \<Longrightarrow> decode_ignore (a # ys) = unat a # decode_ignore ys"
  by (simp add: decode_step_ascii)

text \<open>An ASCII byte is never dropped, wherever it stands.\<close>

lemma decode_ignore_keeps_ascii:
  "a < 0x80 \<Longrightarrow> decode_ignore (xs @ a # ys) = decode_ignore xs @ unat a # decode_ignore ys"
  by (simp add: decode_ignore_split ascii_not_cont decode_ignore_ascii_Cons
      del: decode_ignore.simps(2))

lemma decode_ignore_ascii: "\<forall>b \<in> set bs. b < 0x80 \<Longrightarrow> decode_ignore bs = map unat bs"
  by (induction bs) (simp_all add: decode_ignore_ascii_Cons del: decode_ignore.simps(2))

lemma decode_ignore_ascii_prefix:
  "\<forall>b \<in> set as. b < 0x80 \<Longrightarrow> decode_ignore (as @ ys) = map unat as @ decode_ignore ys"
  by (induction as) (simp_all add: decode_ignore_ascii_Cons del: decode_ignore.simps(2))

text \<open>A run of ASCII bytes comes out of the decoder as it stands, whatever surrounds it.\<close>

lemma decode_ignore_ascii_run:
  assumes "\<forall>b \<in> set as. b < 0x80" and "as \<noteq> []"
  shows "decode_ignore (xs @ as @ ys) = decode_ignore xs @ map unat as @ decode_ignore ys"
proof -
  obtain a as' where as: "as = a # as'"
    using assms(2) by (cases as) auto
  have "decode_ignore (xs @ a # (as' @ ys)) = decode_ignore xs @ unat a # decode_ignore (as' @ ys)"
    using assms(1) as by (simp add: decode_ignore_keeps_ascii del: decode_ignore.simps(2))
  moreover have "decode_ignore (as' @ ys) = map unat as' @ decode_ignore ys"
    using assms(1) as by (simp add: decode_ignore_ascii_prefix)
  ultimately show ?thesis using as by simp
qed

text \<open>Valid text is decoded as the strict decoder decodes it.\<close>

lemma decode_strict_ignore: "decode_strict bs = Some t \<Longrightarrow> decode_ignore bs = t"
proof (induction bs arbitrary: t rule: length_induct)
  case (1 bs)
  show ?case
  proof (cases bs)
    case Nil
    then show ?thesis using "1.prems" by simp
  next
    case (Cons b bs')
    let ?n = "snd (decode_step b bs')"
    from "1.prems" Cons obtain c t' where c: "fst (decode_step b bs') = Some c"
      and t': "decode_strict (drop (?n - 1) bs') = Some t'" and t: "t = c # t'"
      by (auto simp add: decode_strict_Cons simp del: decode_strict.simps split: option.splits)
    have "length (drop (?n - 1) bs') < length bs"
      using Cons by simp
    then have "decode_ignore (drop (?n - 1) bs') = t'"
      using "1.IH" t' by blast
    then show ?thesis
      using Cons c t decode_ignore_Cons [of b bs'] by simp
  qed
qed

lemma decode_strict_step_None:
  "fst (decode_step b bs) = None \<Longrightarrow> decode_strict (b # bs) = None"
  by (simp add: case_prod_beta)

lemma decode_strict_step_Some:
  "fst (decode_step b bs) = Some c \<Longrightarrow>
     decode_strict (b # bs) = map_option ((#) c) (decode_strict (drop (snd (decode_step b bs) - 1) bs))"
  by (simp add: case_prod_beta)

lemma decode_ignore_step_None:
  "fst (decode_step b bs) = None \<Longrightarrow>
     decode_ignore (b # bs) = decode_ignore (drop (snd (decode_step b bs) - 1) bs)"
  by (simp add: case_prod_beta)

lemma decode_ignore_step_Some:
  "fst (decode_step b bs) = Some c \<Longrightarrow>
     decode_ignore (b # bs) = c # decode_ignore (drop (snd (decode_step b bs) - 1) bs)"
  by (simp add: case_prod_beta)

lemma subseq_drop: "subseq (drop n xs) xs"
proof -
  have "subseq (drop n xs) (take n xs @ drop n xs)"
    by (rule list_emb_append2) (rule subseq_order.order_refl)
  then show ?thesis by simp
qed

lemma kept_None:
  assumes "fst (decode_step b bs) = None"
    and "subseq kept (drop (snd (decode_step b bs) - 1) bs)"
    and "decode_strict kept = Some (decode_ignore (drop (snd (decode_step b bs) - 1) bs))"
  shows "subseq kept (b # bs) \<and> decode_strict kept = Some (decode_ignore (b # bs)) \<and>
         length kept < length (b # bs)"
proof -
  have "subseq kept bs"
    using assms(2) subseq_drop by (rule subseq_order.order_trans)
  then have a: "subseq kept (b # bs)"
    by (rule list_emb_Cons)
  have b: "decode_strict kept = Some (decode_ignore (b # bs))"
    using assms(3) by (simp only: decode_ignore_step_None [OF assms(1)])
  have "length kept \<le> length bs"
    using \<open>subseq kept bs\<close> by (rule list_emb_length)
  then have c: "length kept < length (b # bs)"
    by simp
  show ?thesis using a b c by (intro conjI)
qed

lemma kept_Some:
  assumes "fst (decode_step b bs) = Some c"
    and "subseq kept (drop (snd (decode_step b bs) - 1) bs)"
    and "decode_strict kept = Some (decode_ignore (drop (snd (decode_step b bs) - 1) bs))"
    and "decode_strict (drop (snd (decode_step b bs) - 1) bs) = None \<longrightarrow>
           length kept < length (drop (snd (decode_step b bs) - 1) bs)"
  shows "subseq (b # take (snd (decode_step b bs) - 1) bs @ kept) (b # bs) \<and>
         decode_strict (b # take (snd (decode_step b bs) - 1) bs @ kept) =
           Some (decode_ignore (b # bs)) \<and>
         (decode_strict (b # bs) = None \<longrightarrow>
            length (b # take (snd (decode_step b bs) - 1) bs @ kept) < length (b # bs))"
proof -
  define n where "n = snd (decode_step b bs)"
  define front where "front = take (n - 1) bs"
  define rest where "rest = drop (n - 1) bs"
  have bs: "bs = front @ rest"
    by (simp add: front_def rest_def)
  have n: "n - 1 \<le> length bs"
    using decode_step_bound [of b bs] unfolding n_def by linarith
  then have lf: "length front = n - 1"
    by (simp add: front_def)
  have step: "decode_step b bs = (Some c, n)"
    using assms(1) by (simp add: n_def prod_eq_iff)
  have step': "decode_step b (front @ kept) = (Some c, n)"
    unfolding front_def using step by (rule decode_step_take)
  have sub: "subseq kept rest"
    using assms(2) by (simp add: n_def rest_def)
  have "subseq (front @ kept) (front @ rest)"
    using sub by (intro list_emb_append_mono subseq_order.order_refl)
  then have a: "subseq (b # front @ kept) (b # bs)"
    using bs by simp
  have fs: "fst (decode_step b (front @ kept)) = Some c" and sn: "snd (decode_step b (front @ kept)) = n"
    using step' by simp_all
  have "drop (n - 1) (front @ kept) = kept"
    using lf by simp
  then have "decode_strict (b # front @ kept) = map_option ((#) c) (decode_strict kept)"
    using decode_strict_step_Some [OF fs] by (simp only: sn)
  also have "\<dots> = Some (c # decode_ignore rest)"
    using assms(3) by (simp add: n_def rest_def)
  also have "c # decode_ignore rest = decode_ignore (b # bs)"
    using decode_ignore_step_Some [OF assms(1)] by (simp only: n_def rest_def)
  finally have b: "decode_strict (b # front @ kept) = Some (decode_ignore (b # bs))" .
  have c: "decode_strict (b # bs) = None \<longrightarrow> length (b # front @ kept) < length (b # bs)"
  proof
    assume "decode_strict (b # bs) = None"
    then have "map_option ((#) c) (decode_strict rest) = None"
      using decode_strict_step_Some [OF assms(1)] by (simp only: n_def rest_def)
    then have "decode_strict rest = None"
      by simp
    then have "length kept < length rest"
      using assms(4) by (simp add: n_def rest_def)
    then show "length (b # front @ kept) < length (b # bs)"
      using bs by (metis Suc_less_eq add_less_cancel_left length_Cons length_append)
  qed
  show ?thesis
    using a b c unfolding front_def n_def by (intro conjI)
qed

text \<open>
  The text decoded with errors ignored is the strict decoding of the payload with some
  bytes left out; in a payload that is not valid UTF-8 at least one byte is left out.
\<close>

lemma decode_ignore_kept:
  "\<exists>kept. subseq kept bs \<and> decode_strict kept = Some (decode_ignore bs) \<and>
          (decode_strict bs = None \<longrightarrow> length kept < length bs)"
proof (induction bs rule: length_induct)
  case (1 bs)
  show ?case
  proof (cases bs)
    case Nil
    have "subseq [] ([] :: pybytes) \<and> decode_strict [] = Some (decode_ignore []) \<and>
        (decode_strict [] = None \<longrightarrow> length ([] :: pybytes) < length ([] :: pybytes))"
      by simp
    then show ?thesis unfolding Nil by (rule exI)
  next
    case (Cons b bs')
    let ?rest = "drop (snd (decode_step b bs') - 1) bs'"
    have "length ?rest < length bs"
      unfolding Cons by simp
    then obtain kept where sub: "subseq kept ?rest"
      and dec: "decode_strict kept = Some (decode_ignore ?rest)"
      and short: "decode_strict ?rest = None \<longrightarrow> length kept < length ?rest"
      using "1.IH" by blast
    show ?thesis
    proof (cases "fst (decode_step b bs')")
      case None
      from kept_None [OF None sub dec] show ?thesis
        unfolding Cons by (intro exI [of _ kept]) simp
    next
      case (Some c)
      from kept_Some [OF Some sub dec short] show ?thesis
        unfolding Cons by (rule exI)
    qed
  qed
qed

subsection \<open>What the operator \<open>in\<close> decides\<close>

lemma starts_with_iff: "starts_with xs ys \<longleftrightarrow> (\<exists>ss. ys = xs @ ss)"
  by (induction xs ys rule: starts_with.induct) auto

lemma str_in_iff: "str_in xs ys \<longleftrightarrow> (\<exists>ps ss. ys = ps @ xs @ ss)"
proof (induction ys)
  case Nil
  then show ?case by (auto simp add: starts_with_iff)
next
  case (Cons y ys)
  show ?case
  proof
    assume "str_in xs (y # ys)"
    then consider "starts_with xs (y # ys)" | "str_in xs ys" by auto
    then show "\<exists>ps ss. y # ys = ps @ xs @ ss"
    proof cases
      case 1
      then obtain ss where "y # ys = xs @ ss" by (auto simp add: starts_with_iff)
      then have "y # ys = [] @ xs @ ss" by simp
      then show ?thesis by blast
    next
      case 2
      then obtain ps ss where "ys = ps @ xs @ ss" using Cons.IH by blast
      then have "y # ys = (y # ps) @ xs @ ss" by simp
      then show ?thesis by blast
    qed
  next
    assume "\<exists>ps ss. y # ys = ps @ xs @ ss"
    then obtain ps ss where eq: "y # ys = ps @ xs @ ss" by blast
    show "str_in xs (y # ys)"
    proof (cases ps)
      case Nil
      then have "starts_with xs (y # ys)"
        using eq by (auto simp add: starts_with_iff)
      then show ?thesis by simp
    next
      case (Cons p ps')
      then have "ys = ps' @ xs @ ss" using eq by simp
      then have "str_in xs ys" using Cons.IH by blast
      then show ?thesis by simp
    qed
  qed
qed

subsection \<open>Answering a datagram\<close>

text \<open>
  C1, as stated, fails: \<open>socket\<close> and \<open>sendto\<close> are called outside the \<open>try\<close>
  block. For a datagram whose text contains "M-SEARCH", if \<open>sendto\<close> raises, or if
  the socket for the reply cannot be created, no reply is sent and the exception ends
  the thread.
\<close>

theorem msearch_no_reply_counterexample:
  "str_in M_SEARCH (decode_ignore (recvfrom 1024 msearch_datagram)) \<and>
   step example_listening (Select (Readable msearch_datagram example_addr SendFails)) =
     Some (example_listening
       \<lparr>phase := Died OSError,
        log := [Open Ssdp, Bind [] 1900, Open Resp, SendFailed [0x4F, 0x4B] example_addr,
          Finalize Ssdp, Finalize Resp]\<rparr>) \<and>
   replies [Open Ssdp, Bind [] 1900, Open Resp, SendFailed [0x4F, 0x4B] example_addr,
     Finalize Ssdp, Finalize Resp] = [] \<and>
   step example_listening (Select (Readable msearch_datagram example_addr SocketFails)) =
     Some (example_listening
       \<lparr>phase := Died OSError, log := [Open Ssdp, Bind [] 1900, Finalize Ssdp]\<rparr>) \<and>
   replies [Open Ssdp, Bind [] 1900, Finalize Ssdp] = []"
  using msearch_datagram_matches
  by (simp add: example_listening_def example_responder_def handle_def respond_def emit_def
      die_def)

text \<open>
  C1, amended. While the thread waits in the loop, a datagram arrives. If the text
  decoded from the bytes received contains "M-SEARCH" and the socket for the reply is
  created and \<open>sendto\<close> returns, the step adds exactly one reply to those sent so
  far, the bytes \<open>upnp_response\<close> addressed to the sender of the datagram, and the
  loop goes on. If the text contains "M-SEARCH" and the socket cannot be created or
  \<open>sendto\<close> raises, no reply is added and the exception ends the thread. If the
  text does not contain "M-SEARCH", the step adds no reply, whatever the operating
  system would do, and the loop goes on.
\<close>

theorem msearch_one_reply:
  assumes "phase st = InSelect"
  shows "(str_in M_SEARCH (decode_ignore (recvfrom 1024 d)) \<longrightarrow>
            (\<exists>st'. step st (Select (Readable d a SendOk)) = Some st' \<and> phase st' = AtTop \<and>
                   replies (log st') = replies (log st) @ [(upnp_response (self st), a)]) \<and>
            (so \<noteq> SendOk \<longrightarrow>
               (\<exists>st'. step st (Select (Readable d a so)) = Some st' \<and>
                      phase st' = Died OSError \<and> replies (log st') = replies (log st)))) \<and>
         (\<not> str_in M_SEARCH (decode_ignore (recvfrom 1024 d)) \<longrightarrow>
            (\<exists>st'. step st (Select (Readable d a so)) = Some st' \<and> phase st' = AtTop \<and>
                   replies (log st') = replies (log st)))"
  using assms
  by (cases so)
    (simp_all add: handle_def respond_def state_simps replies_append replies_Finalize)

theorem msearch_one_reply_witness:
  "(\<exists>st'. step example_listening (Select (Readable msearch_datagram example_addr SendOk)) = Some st' \<and>
          phase st' = AtTop \<and> replies (log st') = [([0x4F, 0x4B], example_addr)]) \<and>
   (\<exists>st'. step example_listening (Select (Readable notify_datagram example_addr SendOk)) = Some st' \<and>
          phase st' = AtTop \<and> replies (log st') = [])"
proof -
  have ph: "phase example_listening = InSelect"
    by (simp add: example_listening_def)
  have base: "replies (log example_listening) = []"
    by (simp add: example_listening_def)
  have resp: "upnp_response (self example_listening) = [0x4F, 0x4B]"
    by (simp add: example_listening_def example_responder_def)
  note yes = msearch_one_reply [OF ph, of msearch_datagram example_addr SendOk,
      THEN conjunct1, THEN mp, OF msearch_datagram_matches, THEN conjunct1,
      unfolded base resp append.simps]
  note no = msearch_one_reply [OF ph, of notify_datagram example_addr SendOk,
      THEN conjunct2, THEN mp, OF notify_datagram_no_match, unfolded base]
  show ?thesis
    using yes no by (intro conjI)
qed

subsection \<open>Socket errors while waiting\<close>

lemma error_round:
  assumes "phase st = InSelect" "\<not> interrupted (self st)"
  shows "exec st (Select SockError # Check # es) = exec (st\<lparr>log := log st @ [LogError]\<rparr>) es"
  using assms by (cases st) (simp add: check_top_def emit_def)

lemma error_rounds_exec:
  "phase st = InSelect \<Longrightarrow> \<not> interrupted (self st) \<Longrightarrow>
   exec st (error_rounds n) = Some (st\<lparr>log := log st @ replicate n LogError\<rparr>)"
proof (induction n arbitrary: st)
  case 0
  then show ?case by simp
next
  case (Suc n)
  have "exec st (error_rounds (Suc n)) = exec st (Select SockError # Check # error_rounds n)"
    by simp
  also have "\<dots> = exec (st\<lparr>log := log st @ [LogError]\<rparr>) (error_rounds n)"
    using Suc.prems by (rule error_round)
  also have "\<dots> = Some (st\<lparr>log := log st @ [LogError] @ replicate n LogError\<rparr>)"
    using Suc.prems by (simp add: Suc.IH)
  finally show ?case by (simp add: replicate_app_Cons_same)
qed

lemma replies_replicate_LogError: "replies (replicate n LogError) = []"
  by (induction n) simp_all

text \<open>
  C6. The thread waits in the loop with the flag clear, and \<open>select\<close> or \<open>recvfrom\<close>
  raises a socket error. The step logs the error and goes back to the head of the
  loop; after the test of the flag the thread waits again, in the state an empty poll
  would have left apart from the log entry. However many such errors follow one
  another, the thread is still waiting afterwards, and no reply has been sent.
\<close>

theorem transient_error_continues:
  assumes "phase st = InSelect" and "\<not> interrupted (self st)"
  shows "step st (Select SockError) = Some (st\<lparr>phase := AtTop, log := log st @ [LogError]\<rparr>) \<and>
         exec st [Select SockError, Check] = Some (st\<lparr>log := log st @ [LogError]\<rparr>) \<and>
         exec st [Select Timeout, Check] = Some st \<and>
         (\<exists>st'. exec st (error_rounds n) = Some st' \<and> phase st' = InSelect \<and>
                log st' = log st @ replicate n LogError \<and>
                replies (log st') = replies (log st))"
proof -
  have a: "step st (Select SockError) = Some (st\<lparr>phase := AtTop, log := log st @ [LogError]\<rparr>)"
    using assms by (simp add: emit_def)
  have b: "exec st [Select SockError, Check] = Some (st\<lparr>log := log st @ [LogError]\<rparr>)"
    using assms error_round [of st "[]"] by simp
  have c: "exec st [Select Timeout, Check] = Some st"
    using assms by (cases st) (simp add: check_top_def)
  have d: "exec st (error_rounds n) = Some (st\<lparr>log := log st @ replicate n LogError\<rparr>)"
    using assms by (rule error_rounds_exec)
  show ?thesis
    using assms a b c d by (simp add: replies_append replies_replicate_LogError)
qed

theorem transient_error_continues_witness:
  "exec example_listening [Select SockError, Check] =
     Some (example_listening\<lparr>log := [Open Ssdp, Bind [] 1900, LogError]\<rparr>) \<and>
   (\<exists>st'. exec example_listening (error_rounds 3) = Some st' \<and> phase st' = InSelect \<and>
          log st' = [Open Ssdp, Bind [] 1900, LogError, LogError, LogError] \<and>
          replies (log st') = [])"
proof -
  have ph: "phase example_listening = InSelect"
    by (simp add: example_listening_def)
  have fl: "\<not> interrupted (self example_listening)"
    by (simp add: example_listening_def example_responder_def)
  have lg: "log example_listening = [Open Ssdp, Bind [] 1900]"
    by (simp add: example_listening_def)
  have r3: "replicate 3 LogError = [LogError, LogError, LogError]"
    by (simp add: numeral_3_eq_3)
  have base: "replies [Open Ssdp, Bind [] 1900] = []"
    by simp
  note inst = transient_error_continues [OF ph fl, of 3, unfolded lg r3 append.simps base]
  show ?thesis
    using inst by (elim conjE) (intro conjI, assumption+)
qed


subsection \<open>The set-up of the listening socket\<close>

lemma run_init_ok:
  assumes "\<forall>s. \<not> fails s"
  shows "run_init fails st =
     st\<lparr>phase := AtTop,
        log := log st @ [Open Ssdp, SetBlocking False, SetReuseAddr,
          SetMulticastIf (host_ip_addr (self st)),
          AddMembership SSDP_GROUP (host_ip_addr (self st)),
          Bind (if upnp_bind_multicast (self st) then [] else host_ip_addr (self st)) 1900]\<rparr>"
  using assms by (simp add: run_init_def Let_def emit_def)

lemma run_init_binds:
  "Bind h p \<in> set (log (run_init fails st)) \<Longrightarrow> Bind h p \<notin> set (log st) \<Longrightarrow>
     p = 1900 \<and> h = (if upnp_bind_multicast (self st) then [] else host_ip_addr (self st))"
  by (auto simp add: run_init_def Let_def emit_def die_def split: if_splits)

lemma run_init_listen_port:
  "run_init fails (with_listen_port q st) = with_listen_port q (run_init fails st)"
  by (simp add: run_init_def Let_def emit_def die_def with_listen_port_def)

lemma step_listen_port:
  "step (with_listen_port q st) e = map_option (with_listen_port q) (step st e)"
proof (cases e)
  case Stop
  then show ?thesis by (simp add: with_listen_port_def set_interrupted_def)
next
  case Check
  then show ?thesis
    by (simp add: with_listen_port_def check_top_def clean_socket_close_def emit_def)
next
  case (Select out)
  then show ?thesis
    by (cases out)
      (simp_all add: with_listen_port_def handle_def respond_def clean_socket_close_def
        emit_def die_def split: send_outcome.splits)
qed

lemma exec_listen_port:
  "exec (with_listen_port q st) es = map_option (with_listen_port q) (exec st es)"
proof (induction es arbitrary: st)
  case Nil
  then show ?case by simp
next
  case (Cons e es)
  then show ?case by (cases "step st e") (simp_all add: step_listen_port)
qed

text \<open>
  C9. When no call of the set-up fails, the listening socket is bound to port 1900, on
  the wildcard address if \<open>upnp_bind_multicast\<close> is set and on \<open>host_ip_addr\<close>
  otherwise. Whatever calls fail, every bind the set-up performs is that one. The field
  \<open>listen_port\<close> is never read: changing it changes neither the set-up nor any later
  step of the loop, apart from the value stored in the field itself.
\<close>

theorem bind_port_1900:
  "((\<forall>s. \<not> fails s) \<longrightarrow>
      phase (run_init fails st) = AtTop \<and>
      log (run_init fails st) =
        log st @ [Open Ssdp, SetBlocking False, SetReuseAddr,
          SetMulticastIf (host_ip_addr (self st)),
          AddMembership SSDP_GROUP (host_ip_addr (self st)),
          Bind (if upnp_bind_multicast (self st) then [] else host_ip_addr (self st)) 1900]) \<and>
   (Bind h p \<in> set (log (run_init fails st)) \<and> Bind h p \<notin> set (log st) \<longrightarrow>
      p = 1900 \<and> h = (if upnp_bind_multicast (self st) then [] else host_ip_addr (self st))) \<and>
   run_init fails (with_listen_port q st) = with_listen_port q (run_init fails st) \<and>
   log (with_listen_port q st) = log st \<and>
   exec (with_listen_port q (run_init fails st)) es =
     map_option (with_listen_port q) (exec (run_init fails st) es)"
proof -
  have a: "(\<forall>s. \<not> fails s) \<longrightarrow>
      phase (run_init fails st) = AtTop \<and>
      log (run_init fails st) =
        log st @ [Open Ssdp, SetBlocking False, SetReuseAddr,
          SetMulticastIf (host_ip_addr (self st)),
          AddMembership SSDP_GROUP (host_ip_addr (self st)),
          Bind (if upnp_bind_multicast (self st) then [] else host_ip_addr (self st)) 1900]"
    by (simp add: run_init_ok)
  have b: "Bind h p \<in> set (log (run_init fails st)) \<and> Bind h p \<notin> set (log st) \<longrightarrow>
      p = 1900 \<and> h = (if upnp_bind_multicast (self st) then [] else host_ip_addr (self st))"
    using run_init_binds [of h p fails st] by blast
  have c: "log (with_listen_port q st) = log st"
    by (simp add: with_listen_port_def)
  show ?thesis
    by (intro conjI) (rule a, rule b, rule run_init_listen_port, rule c, rule exec_listen_port)
qed

theorem bind_port_1900_witness:
  "log (run_init no_failure (new_thread (example_responder\<lparr>listen_port := 8080\<rparr>))) =
     [Open Ssdp, SetBlocking False, SetReuseAddr, SetMulticastIf (ustr ''192.168.1.2''),
      AddMembership SSDP_GROUP (ustr ''192.168.1.2''), Bind [] 1900] \<and>
   log (run_init no_failure
          (new_thread (example_responder\<lparr>upnp_bind_multicast := False, listen_port := 8080\<rparr>))) =
     [Open Ssdp, SetBlocking False, SetReuseAddr, SetMulticastIf (ustr ''192.168.1.2''),
      AddMembership SSDP_GROUP (ustr ''192.168.1.2''), Bind (ustr ''192.168.1.2'') 1900]"
proof -
  have nf: "\<forall>s. \<not> no_failure s"
    by (simp add: no_failure_def)
  note one = bind_port_1900 [of no_failure "new_thread (example_responder\<lparr>listen_port := 8080\<rparr>)",
      THEN conjunct1, THEN mp, OF nf, THEN conjunct2]
  note two = bind_port_1900 [of no_failure
      "new_thread (example_responder\<lparr>upnp_bind_multicast := False, listen_port := 8080\<rparr>)",
      THEN conjunct1, THEN mp, OF nf, THEN conjunct2]
  show ?thesis
    using one two by (simp add: new_thread_def example_responder_def)
qed


subsection \<open>The receive buffer\<close>

lemma decode_ignore_spaces:
  "decode_ignore (replicate n 0x20 @ bs) = replicate n 32 @ decode_ignore bs"
  by (induction n) (simp_all add: decode_step_def)

lemma starts_with_M_SEARCH_space: "\<not> starts_with M_SEARCH (32 # cs)"
  by (simp add: M_SEARCH_def ustr_def)

lemma str_in_spaces: "\<not> str_in M_SEARCH (replicate n 32)"
  by (induction n) (simp_all add: starts_with_M_SEARCH_space, simp add: M_SEARCH_def ustr_def)

lemma str_in_append_right: "str_in xs zs \<Longrightarrow> str_in xs (ys @ zs)"
  by (induction ys) simp_all

lemma far_datagram_cut:
  "\<not> str_in M_SEARCH (decode_ignore (take 1024 far_datagram))"
  using decode_ignore_spaces [of 1024 "[]"] by (simp add: far_datagram_def str_in_spaces)

lemma far_datagram_whole: "str_in M_SEARCH (decode_ignore far_datagram)"
proof -
  have "str_in M_SEARCH (decode_ignore msearch_datagram)"
    by code_simp
  then show ?thesis
    by (simp add: far_datagram_def decode_ignore_spaces str_in_append_right)
qed

lemma M_SEARCH_bytes: "M_SEARCH = map unat (ascii_bytes ''M-SEARCH'')"
  by (simp add: M_SEARCH_def ustr_def ascii_bytes_def)

lemma M_SEARCH_ascii: "\<forall>b \<in> set (ascii_bytes ''M-SEARCH''). b < 0x80"
  by (simp add: ascii_bytes_def)

lemma str_in_spaces_front: "str_in M_SEARCH (replicate n 32 @ cs) = str_in M_SEARCH cs"
  by (induction n) (simp_all add: starts_with_M_SEARCH_space)

text \<open>The bytes of "M-SEARCH", standing together in the payload, are found in its text.\<close>

lemma bytes_found:
  assumes "data = ps @ ascii_bytes ''M-SEARCH'' @ ss"
  shows "str_in M_SEARCH (decode_ignore data)"
proof -
  have "ascii_bytes ''M-SEARCH'' \<noteq> []"
    by (simp add: ascii_bytes_def)
  then have "decode_ignore data = decode_ignore ps @ M_SEARCH @ decode_ignore ss"
    unfolding assms M_SEARCH_bytes using M_SEARCH_ascii by (intro decode_ignore_ascii_run)
  then show ?thesis
    unfolding str_in_iff by blast
qed

text \<open>In a payload of ASCII bytes the text holds "M-SEARCH" only where the bytes do.\<close>

lemma ascii_found:
  assumes "\<forall>b \<in> set data. b < 0x80" and "str_in M_SEARCH (decode_ignore data)"
  shows "\<exists>ps ss. data = ps @ ascii_bytes ''M-SEARCH'' @ ss"
proof -
  let ?m = "ascii_bytes ''M-SEARCH'' :: pybytes"
  have "decode_ignore data = map unat data"
    using assms(1) by (rule decode_ignore_ascii)
  then have "\<exists>us vs. map unat data = us @ map unat ?m @ vs"
    using assms(2) by (simp only: str_in_iff M_SEARCH_bytes)
  then obtain us vs where eq: "map unat data = us @ (map unat ?m @ vs)"
    by (elim exE)
  have "\<exists>ps rest. data = ps @ rest \<and> us = map unat ps \<and> map unat ?m @ vs = map unat rest"
    using eq by (simp only: map_eq_append_conv)
  then obtain ps rest where r: "data = ps @ rest" and rm: "map unat rest = map unat ?m @ vs"
    by (elim exE conjE) simp
  have "\<exists>m ss. rest = m @ ss \<and> map unat ?m = map unat m \<and> vs = map unat ss"
    using rm by (simp only: map_eq_append_conv)
  then obtain m ss where ms: "rest = m @ ss" and m: "map unat m = map unat ?m"
    by (elim exE conjE) simp
  have "inj (unat :: byte \<Rightarrow> nat)"
    by (rule injI) (simp only: word_unat_eq_iff)
  then have "m = ?m"
    using m by (simp only: inj_map_eq_map)
  then have "data = ps @ ?m @ ss"
    using r ms by simp
  then show ?thesis by (intro exI)
qed

lemma tricky_first: "take 1024 tricky_datagram =
    ascii_bytes ''M-SE'' @ [0xFF] @ ascii_bytes ''ARCH'' @ replicate 1015 0x20"
  by (simp add: tricky_datagram_def ascii_bytes_def)

lemma tricky_rest: "drop 1024 tricky_datagram = msearch_datagram"
  by (simp add: tricky_datagram_def ascii_bytes_def)

lemma tricky_bytes: "\<not> str_in M_SEARCH (map unat (take 1031 tricky_datagram))"
proof -
  have "take 1031 tricky_datagram =
      ascii_bytes ''M-SE'' @ [0xFF] @ ascii_bytes ''ARCH'' @ replicate 1015 0x20 @
      ascii_bytes ''M-SEARC''"
    by (simp add: tricky_datagram_def msearch_datagram_def ascii_bytes_def)
  then have "map unat (take 1031 tricky_datagram) =
      [77, 45, 83, 69, 255, 65, 82, 67, 72] @ replicate 1015 32 @ [77, 45, 83, 69, 65, 82, 67]"
    by (simp add: ascii_bytes_def)
  moreover have "\<not> str_in M_SEARCH
      ([77, 45, 83, 69, 255, 65, 82, 67, 72] @ replicate 1015 32 @ [77, 45, 83, 69, 65, 82, 67])"
    by (simp add: str_in_spaces_front) (simp add: M_SEARCH_def ustr_def)
  ultimately show ?thesis by simp
qed

lemma tricky_text: "str_in M_SEARCH (decode_ignore (recvfrom 1024 tricky_datagram))"
proof -
  have "decode_ignore (ascii_bytes ''M-SE'' @ [0xFF] @ ascii_bytes ''ARCH'' @ replicate 1015 0x20) =
      M_SEARCH @ replicate 1015 32"
    using decode_ignore_spaces [of 1015 "[]"]
    by (simp add: ascii_bytes_def decode_step_def M_SEARCH_def ustr_def)
  then have "decode_ignore (recvfrom 1024 tricky_datagram) = [] @ M_SEARCH @ replicate 1015 32"
    by (simp add: recvfrom_def tricky_first)
  then show ?thesis
    unfolding str_in_iff by blast
qed

text \<open>
  C10, as stated, fails when it is read on the bytes of the datagram: in
  \<open>tricky_datagram\<close> the bytes of "M-SEARCH" first stand at offset 1024, yet the
  first 1024 bytes decode to a text that contains "M-SEARCH", and the datagram is
  answered with one reply.
\<close>

theorem beyond_1024_answered_counterexample:
  "drop 1024 tricky_datagram = msearch_datagram \<and>
   \<not> str_in M_SEARCH (map unat (take 1031 tricky_datagram)) \<and>
   step example_listening (Select (Readable tricky_datagram example_addr SendOk)) =
     Some (example_listening
       \<lparr>phase := AtTop,
        log := [Open Ssdp, Bind [] 1900, Open Resp, SendTo [0x4F, 0x4B] example_addr, Close Resp]\<rparr>) \<and>
   replies [Open Ssdp, Bind [] 1900, Open Resp, SendTo [0x4F, 0x4B] example_addr, Close Resp] =
     [([0x4F, 0x4B], example_addr)]"
proof -
  have "step example_listening (Select (Readable tricky_datagram example_addr SendOk)) =
     Some (example_listening
       \<lparr>phase := AtTop,
        log := [Open Ssdp, Bind [] 1900, Open Resp, SendTo [0x4F, 0x4B] example_addr, Close Resp]\<rparr>)"
    using tricky_text
    by (simp add: example_listening_def example_responder_def handle_def respond_def emit_def)
  then show ?thesis
    using tricky_rest tricky_bytes by simp
qed

text \<open>
  C10, amended. A receive hands the loop the first 1024 bytes of the datagram at most,
  and the step taken depends on the datagram through those bytes only. No reply is
  sent when the text decoded from them, with the bytes that cannot be decoded left
  out, does not contain "M-SEARCH", wherever "M-SEARCH" stands further on in the
  datagram: so when the first 1024 bytes are ASCII and the bytes of "M-SEARCH" do not
  stand together in them, the step changes nothing but the point of control. When the
  bytes of "M-SEARCH" do stand together in the first 1024 bytes, the text contains
  "M-SEARCH" and, the send succeeding, one reply is sent.
\<close>

theorem receive_first_1024:
  assumes "phase st = InSelect"
  shows "length (recvfrom 1024 d) \<le> 1024 \<and>
         step st (Select (Readable d a so)) = Some (handle (take 1024 d) a so st) \<and>
         (take 1024 d' = take 1024 d \<longrightarrow>
            step st (Select (Readable d' a so)) = step st (Select (Readable d a so))) \<and>
         (\<not> str_in M_SEARCH (decode_ignore (take 1024 d)) \<longrightarrow>
            step st (Select (Readable d a so)) = Some (st\<lparr>phase := AtTop\<rparr>)) \<and>
         ((\<forall>b \<in> set (take 1024 d). b < 0x80) \<and>
          \<not> (\<exists>ps ss. take 1024 d = ps @ ascii_bytes ''M-SEARCH'' @ ss) \<longrightarrow>
            step st (Select (Readable d a so)) = Some (st\<lparr>phase := AtTop\<rparr>)) \<and>
         ((\<exists>ps ss. take 1024 d = ps @ ascii_bytes ''M-SEARCH'' @ ss) \<longrightarrow>
            (\<exists>st'. step st (Select (Readable d a SendOk)) = Some st' \<and>
                   replies (log st') = replies (log st) @ [(upnp_response (self st), a)]))"
proof -
  have p1: "length (recvfrom 1024 d) \<le> 1024"
    by (simp add: recvfrom_def)
  have p2: "step st (Select (Readable d a so)) = Some (handle (take 1024 d) a so st)"
    using assms by (simp add: recvfrom_def)
  have p3: "take 1024 d' = take 1024 d \<longrightarrow>
      step st (Select (Readable d' a so)) = step st (Select (Readable d a so))"
    using assms by (simp add: recvfrom_def)
  have p4: "\<not> str_in M_SEARCH (decode_ignore (take 1024 d)) \<longrightarrow>
      step st (Select (Readable d a so)) = Some (st\<lparr>phase := AtTop\<rparr>)"
    using assms by (simp add: recvfrom_def handle_def)
  have p5: "(\<forall>b \<in> set (take 1024 d). b < 0x80) \<and>
      \<not> (\<exists>ps ss. take 1024 d = ps @ ascii_bytes ''M-SEARCH'' @ ss) \<longrightarrow>
      step st (Select (Readable d a so)) = Some (st\<lparr>phase := AtTop\<rparr>)"
    using p4 ascii_found [of "take 1024 d"] by blast
  have p6: "(\<exists>ps ss. take 1024 d = ps @ ascii_bytes ''M-SEARCH'' @ ss) \<longrightarrow>
      (\<exists>st'. step st (Select (Readable d a SendOk)) = Some st' \<and>
             replies (log st') = replies (log st) @ [(upnp_response (self st), a)])"
  proof
    assume "\<exists>ps ss. take 1024 d = ps @ ascii_bytes ''M-SEARCH'' @ ss"
    then have "str_in M_SEARCH (decode_ignore (take 1024 d))"
      using bytes_found by blast
    then show "\<exists>st'. step st (Select (Readable d a SendOk)) = Some st' \<and>
        replies (log st') = replies (log st) @ [(upnp_response (self st), a)]"
      using assms by (simp add: recvfrom_def handle_def respond_def state_simps replies_append)
  qed
  show ?thesis
    by (intro conjI) (rule p1, rule p2, rule p3, rule p4, rule p5, rule p6)
qed

theorem receive_first_1024_witness:
  "str_in M_SEARCH (decode_ignore far_datagram) \<and>
   step example_listening (Select (Readable far_datagram example_addr SendOk)) =
     Some (example_listening\<lparr>phase := AtTop\<rparr>)"
proof -
  have ph: "phase example_listening = InSelect"
    by (simp add: example_listening_def)
  have first: "take 1024 far_datagram = replicate 1024 0x20"
    by (simp add: far_datagram_def)
  have plain: "\<forall>b \<in> set (take 1024 far_datagram). b < 0x80"
    unfolding first by simp
  have absent: "\<not> (\<exists>ps ss. take 1024 far_datagram = ps @ ascii_bytes ''M-SEARCH'' @ ss)"
  proof
    assume "\<exists>ps ss. take 1024 far_datagram = ps @ ascii_bytes ''M-SEARCH'' @ ss"
    then obtain ps ss where "replicate 1024 (0x20 :: byte) = ps @ ascii_bytes ''M-SEARCH'' @ ss"
      unfolding first by blast
    then have "(0x4D :: byte) \<in> set (replicate 1024 0x20)"
      by (simp add: ascii_bytes_def)
    then show False by simp
  qed
  note inst = receive_first_1024 [OF ph, of far_datagram example_addr SendOk,
      THEN conjunct2, THEN conjunct2, THEN conjunct2, THEN conjunct2, THEN conjunct1,
      THEN mp, OF conjI [OF plain absent]]
  show ?thesis
    using inst far_datagram_whole by (intro conjI)
qed

subsection \<open>Payloads that are not valid UTF-8\<close>

lemma bad_datagram_invalid: "decode_strict (recvfrom 1024 bad_datagram) = None"
  by code_simp

lemma bad_datagram_matches: "str_in M_SEARCH (decode_ignore (recvfrom 1024 bad_datagram))"
  by code_simp

lemma noise_datagram_invalid: "decode_strict (recvfrom 1024 noise_datagram) = None"
  by code_simp

lemma noise_datagram_no_match:
  "\<not> str_in M_SEARCH (decode_ignore (recvfrom 1024 noise_datagram))"
  by code_simp

text \<open>
  C3, as stated, fails: the payload \<open>0xFF\<close> followed by "M-SEARCH * HTTP/1.1" is not
  valid UTF-8, yet the byte that cannot be decoded is dropped, the rest matches, and
  one reply is sent.
\<close>

theorem undecodable_reply_counterexample:
  "decode_strict (recvfrom 1024 bad_datagram) = None \<and>
   step example_listening (Select (Readable bad_datagram example_addr SendOk)) =
     Some (example_listening
       \<lparr>phase := AtTop,
        log := [Open Ssdp, Bind [] 1900, Open Resp, SendTo [0x4F, 0x4B] example_addr, Close Resp]\<rparr>) \<and>
   replies [Open Ssdp, Bind [] 1900, Open Resp, SendTo [0x4F, 0x4B] example_addr, Close Resp] =
     [([0x4F, 0x4B], example_addr)]"
  using bad_datagram_invalid bad_datagram_matches
  by (simp add: example_listening_def example_responder_def handle_def respond_def emit_def)

lemma noise_datagram_text: "decode_ignore (recvfrom 1024 noise_datagram) = [78, 79]"
  by code_simp

text \<open>
  C3, amended. A payload that is not valid UTF-8 never makes the decoding raise. The
  text that is searched is what strict decoding gives for the payload with some of its
  bytes left out, at least one of them; an ASCII byte is never left out. If that text
  does not contain "M-SEARCH", no reply is sent, the step changes nothing but the point
  of control, and with the flag clear the thread waits again. If that text contains
  "M-SEARCH" and the send succeeds, one reply is sent and the loop goes on.
\<close>

theorem undecodable_bytes_ignored:
  assumes "phase st = InSelect" and "decode_strict (recvfrom 1024 d) = None"
  shows "(\<exists>kept. subseq kept (recvfrom 1024 d) \<and> length kept < length (recvfrom 1024 d) \<and>
            decode_strict kept = Some (decode_ignore (recvfrom 1024 d))) \<and>
         (\<forall>xs b ys. recvfrom 1024 d = xs @ b # ys \<and> b < 0x80 \<longrightarrow>
            decode_ignore (recvfrom 1024 d) = decode_ignore xs @ unat b # decode_ignore ys) \<and>
         (\<not> str_in M_SEARCH (decode_ignore (recvfrom 1024 d)) \<longrightarrow>
            step st (Select (Readable d a so)) = Some (st\<lparr>phase := AtTop\<rparr>) \<and>
            (\<not> interrupted (self st) \<longrightarrow> exec st [Select (Readable d a so), Check] = Some st)) \<and>
         (str_in M_SEARCH (decode_ignore (recvfrom 1024 d)) \<longrightarrow>
            (\<exists>st'. step st (Select (Readable d a SendOk)) = Some st' \<and> phase st' = AtTop \<and>
                   replies (log st') = replies (log st) @ [(upnp_response (self st), a)]))"
proof -
  have p1: "\<exists>kept. subseq kept (recvfrom 1024 d) \<and> length kept < length (recvfrom 1024 d) \<and>
      decode_strict kept = Some (decode_ignore (recvfrom 1024 d))"
    using decode_ignore_kept [of "recvfrom 1024 d"] assms(2) by blast
  have p2: "\<forall>xs b ys. recvfrom 1024 d = xs @ b # ys \<and> b < 0x80 \<longrightarrow>
      decode_ignore (recvfrom 1024 d) = decode_ignore xs @ unat b # decode_ignore ys"
    using decode_ignore_keeps_ascii by metis
  have again: "\<not> interrupted (self st) \<Longrightarrow> check_top (st\<lparr>phase := AtTop\<rparr>) = st"
    using assms(1) by (cases st) (simp add: check_top_def)
  have p3: "\<not> str_in M_SEARCH (decode_ignore (recvfrom 1024 d)) \<longrightarrow>
      step st (Select (Readable d a so)) = Some (st\<lparr>phase := AtTop\<rparr>) \<and>
      (\<not> interrupted (self st) \<longrightarrow> exec st [Select (Readable d a so), Check] = Some st)"
    using assms(1) again by (simp add: handle_def)
  have p4: "str_in M_SEARCH (decode_ignore (recvfrom 1024 d)) \<longrightarrow>
      (\<exists>st'. step st (Select (Readable d a SendOk)) = Some st' \<and> phase st' = AtTop \<and>
             replies (log st') = replies (log st) @ [(upnp_response (self st), a)])"
    using assms(1) by (simp add: handle_def respond_def state_simps replies_append)
  show ?thesis
    by (intro conjI) (rule p1, rule p2, rule p3, rule p4)
qed

theorem undecodable_bytes_ignored_witness:
  "(\<exists>kept. subseq kept (recvfrom 1024 noise_datagram) \<and>
          length kept < length (recvfrom 1024 noise_datagram) \<and>
          decode_strict kept = Some [78, 79]) \<and>
   exec example_listening [Select (Readable noise_datagram example_addr SendOk), Check] =
     Some example_listening \<and>
   (\<exists>st'. step example_listening (Select (Readable bad_datagram example_addr SendOk)) = Some st' \<and>
          phase st' = AtTop \<and> replies (log st') = [([0x4F, 0x4B], example_addr)])"
proof -
  have ph: "phase example_listening = InSelect"
    by (simp add: example_listening_def)
  have fl: "\<not> interrupted (self example_listening)"
    by (simp add: example_listening_def example_responder_def)
  have base: "replies (log example_listening) = []"
    by (simp add: example_listening_def)
  have resp: "upnp_response (self example_listening) = [0x4F, 0x4B]"
    by (simp add: example_listening_def example_responder_def)
  note kept = undecodable_bytes_ignored [OF ph noise_datagram_invalid, of example_addr SendOk,
      THEN conjunct1, unfolded noise_datagram_text]
  note one = undecodable_bytes_ignored [OF ph noise_datagram_invalid, of example_addr SendOk,
      THEN conjunct2, THEN conjunct2, THEN conjunct1, THEN mp, OF noise_datagram_no_match,
      THEN conjunct2, THEN mp, OF fl]
  note two = undecodable_bytes_ignored [OF ph bad_datagram_invalid, of example_addr SendOk,
      THEN conjunct2, THEN conjunct2, THEN conjunct2, THEN mp, OF bad_datagram_matches,
      unfolded base resp append.simps]
  show ?thesis
    using kept one two by (intro conjI)
qed

subsection \<open>The socket of a reply\<close>





subsection \<open>Formatting, line endings and encoding\<close>

lemma byte_of_nat_lf: "(of_nat k :: byte) = 0x0A \<Longrightarrow> k < 256 \<Longrightarrow> k = 10"
proof -
  assume eq: "(of_nat k :: byte) = 0x0A" and k: "k < 256"
  have "unat (of_nat k :: byte) = k"
    using k by (simp add: unat_of_nat take_bit_eq_mod)
  moreover have "unat (0x0A :: byte) = 10" by simp
  ultimately show "k = 10" using eq by simp
qed

lemma encode_cp_shape:
  assumes "encode_cp c = Some bs"
  shows "(c < 128 \<and> bs = [of_nat c]) \<or>
         (\<exists>ks. bs = map of_nat ks \<and> (\<forall>k \<in> set ks. 128 \<le> k \<and> k < 256))"
proof -
  consider "c < 0x80" | "0x80 \<le> c" "c < 0x800" | "0x800 \<le> c" "c < 0x10000" | "0x10000 \<le> c"
    by linarith
  then show ?thesis
  proof cases
    case 1
    then show ?thesis using assms by (simp add: encode_cp_def)
  next
    case 2
    then have "bs = map of_nat [0xC0 + c div 64, 0x80 + c mod 64]"
      using assms by (simp add: encode_cp_def del: of_nat_add of_nat_numeral)
    moreover have "\<forall>k \<in> set [0xC0 + c div 64, 0x80 + c mod 64]. 128 \<le> k \<and> k < 256"
      using 2 by auto
    ultimately show ?thesis by blast
  next
    case 3
    then have "bs = map of_nat [0xE0 + c div 4096, 0x80 + c div 64 mod 64, 0x80 + c mod 64]"
      using assms by (simp add: encode_cp_def del: of_nat_add of_nat_numeral split: if_splits)
    moreover have
      "\<forall>k \<in> set [0xE0 + c div 4096, 0x80 + c div 64 mod 64, 0x80 + c mod 64]. 128 \<le> k \<and> k < 256"
      using 3 by auto
    ultimately show ?thesis by blast
  next
    case 4
    then have c: "c < 0x110000"
      using assms by (simp add: encode_cp_def split: if_splits)
    have "bs = map of_nat [0xF0 + c div 262144, 0x80 + c div 4096 mod 64,
        0x80 + c div 64 mod 64, 0x80 + c mod 64]"
      using assms 4 by (simp add: encode_cp_def del: of_nat_add of_nat_numeral split: if_splits)
    moreover have "\<forall>k \<in> set [0xF0 + c div 262144, 0x80 + c div 4096 mod 64,
        0x80 + c div 64 mod 64, 0x80 + c mod 64]. 128 \<le> k \<and> k < 256"
      using 4 c by auto
    ultimately show ?thesis by blast
  qed
qed

lemma encode_cp_no_lf:
  assumes "encode_cp c = Some bs" and "c \<noteq> 10"
  shows "0x0A \<notin> set bs"
proof
  assume lf: "0x0A \<in> set bs"
  from encode_cp_shape [OF assms(1)] show False
  proof (elim disjE conjE exE)
    assume "c < 128" "bs = [of_nat c]"
    then show False using lf assms(2) byte_of_nat_lf [of c] by auto
  next
    fix ks assume ks: "bs = map of_nat ks" "\<forall>k \<in> set ks. 128 \<le> k \<and> k < 256"
    then obtain k where "k \<in> set ks" "(of_nat k :: byte) = 0x0A"
      using lf by auto
    then show False using ks(2) byte_of_nat_lf [of k] by force
  qed
qed

lemma map_option_Cons_append:
  "map_option ((#) c) (map_option ((@) xs) F) = map_option ((@) (c # xs)) F"
  by (cases F) simp_all

lemma map_option_append_append:
  "map_option ((@) xs) (map_option ((@) ys) F) = map_option ((@) (xs @ ys)) F"
  by (cases F) simp_all

lemma map_option_append_Nil: "map_option ((@) []) F = F"
  by (cases F) simp_all

lemma format_str_literal:
  "\<forall>c \<in> set xs. c \<noteq> 123 \<and> c \<noteq> 125 \<Longrightarrow>
     format_str (xs @ ys) args = map_option ((@) xs) (format_str ys args)"
  by (induction xs) (simp_all add: map_option_Cons_append map_option_append_Nil)

lemma template_split: "resp_template = template_head @ ustr ''{0}:{1}'' @ template_tail"
  by (simp add: resp_template_def template_head_def template_tail_def ustr_def)

lemma template_head_plain: "\<forall>c \<in> set template_head. c \<noteq> 123 \<and> c \<noteq> 125"
  by (simp add: template_head_def ustr_def LF_def)

lemma template_tail_plain: "\<forall>c \<in> set template_tail. c \<noteq> 123 \<and> c \<noteq> 125"
  by (simp add: template_tail_def ustr_def LF_def)

lemma format_fields:
  "format_str (ustr ''{0}:{1}'' @ ys) [a, p] = map_option ((@) (a @ [58] @ p)) (format_str ys [a, p])"
  by (simp add: ustr_def map_option_Cons_append map_option_append_append)

lemma format_template:
  "format_str resp_template [a, p] = Some (template_head @ a @ [58] @ p @ template_tail)"
proof -
  have "format_str (template_tail @ []) [a, p] = map_option ((@) template_tail) (format_str [] [a, p])"
    using template_tail_plain by (rule format_str_literal)
  then have tail: "format_str template_tail [a, p] = Some template_tail"
    by simp
  have "format_str resp_template [a, p] =
      map_option ((@) template_head) (format_str (ustr ''{0}:{1}'' @ template_tail) [a, p])"
    unfolding template_split using template_head_plain by (rule format_str_literal)
  also have "\<dots> = Some (template_head @ a @ [58] @ p @ template_tail)"
    unfolding format_fields tail by simp
  finally show ?thesis .
qed

lemma replace_lf_append: "replace_lf (xs @ ys) = replace_lf xs @ replace_lf ys"
  by (induction xs) simp_all

lemma encode_utf8_append:
  "encode_utf8 (xs @ ys) =
     (case encode_utf8 xs of
        Inl e \<Rightarrow> Inl e
      | Inr a \<Rightarrow> (case encode_utf8 ys of Inl e \<Rightarrow> Inl e | Inr b \<Rightarrow> Inr (a @ b)))"
  by (induction xs) (simp_all split: option.splits sum.splits)

lemma encode_cp_valid: "valid_cp c \<Longrightarrow> \<exists>bs. encode_cp c = Some bs"
  by (auto simp add: valid_cp_def encode_cp_def)

lemma encode_utf8_valid: "\<forall>c \<in> set s. valid_cp c \<Longrightarrow> \<exists>bs. encode_utf8 s = Inr bs"
proof (induction s)
  case Nil
  then show ?case by simp
next
  case (Cons c s)
  then obtain cb rest where "encode_cp c = Some cb" "encode_utf8 s = Inr rest"
    using encode_cp_valid [of c] by auto
  then show ?case by simp
qed

lemma encode_utf8_ascii: "\<forall>c \<in> set s. c < 128 \<Longrightarrow> encode_utf8 s = Inr (map of_nat s)"
  by (induction s) (simp_all add: encode_cp_def)

lemma crlf_only_no_lf: "0x0A \<notin> set xs \<Longrightarrow> crlf_only p (xs @ ys) = crlf_only (last (p # xs)) ys"
  by (induction xs arbitrary: p) auto

lemma encode_replace_lf_crlf: "encode_utf8 (replace_lf s) = Inr bs \<Longrightarrow> crlf_only p bs"
proof (induction s arbitrary: p bs)
  case Nil
  then show ?case by simp
next
  case (Cons c s)
  show ?case
  proof (cases "c = LF")
    case True
    then obtain rest where rest: "encode_utf8 (replace_lf s) = Inr rest" "bs = 0x0D # 0x0A # rest"
      using Cons.prems by (auto simp add: LF_def CR_def encode_cp_def split: sum.splits)
    then show ?thesis using Cons.IH [of rest "0x0A"] by simp
  next
    case False
    then obtain cb rest where cb: "encode_cp c = Some cb"
      and rest: "encode_utf8 (replace_lf s) = Inr rest" and bs: "bs = cb @ rest"
      using Cons.prems by (auto split: option.splits sum.splits)
    have "0x0A \<notin> set cb"
      using cb False by (intro encode_cp_no_lf) (auto simp add: LF_def)
    then show ?thesis
      using Cons.IH [OF rest] by (simp add: bs crlf_only_no_lf)
  qed
qed

lemma replace_lf_plain: "LF \<notin> set xs \<Longrightarrow> replace_lf xs = xs"
  by (induction xs) auto

lemma ustr_below_256: "c \<in> set (ustr s) \<Longrightarrow> c < 256"
  by (auto simp add: ustr_def)

lemma encode_head: "encode_utf8 (replace_lf template_head) = Inr reply_head"
proof -
  have a: "\<forall>c \<in> set (replace_lf template_head). c < 128"
    by (simp add: template_head_def ustr_def LF_def CR_def replace_lf_append)
  have b: "map of_nat (replace_lf template_head) = reply_head"
    by (simp add: template_head_def reply_head_def ustr_def ascii_bytes_def LF_def CR_def
        CRLF_def replace_lf_append)
  show ?thesis
    using encode_utf8_ascii [OF a] b by simp
qed

lemma encode_tail: "encode_utf8 (replace_lf template_tail) = Inr reply_tail"
proof -
  have a: "\<forall>c \<in> set (replace_lf template_tail). c < 128"
    by (simp add: template_tail_def ustr_def LF_def CR_def replace_lf_append)
  have b: "map of_nat (replace_lf template_tail) = reply_tail"
    by (simp add: template_tail_def reply_tail_def ustr_def ascii_bytes_def LF_def CR_def
        CRLF_def replace_lf_append)
  show ?thesis
    using encode_utf8_ascii [OF a] b by simp
qed

lemma digits_range: "c \<in> set (digits n) \<Longrightarrow> 48 \<le> c \<and> c < 58"
proof (induction n arbitrary: c rule: digits.induct)
  case (1 n)
  show ?case
  proof (cases "n < 10")
    case True
    then show ?thesis using "1.prems" by (simp add: digits.simps [of n])
  next
    case False
    then have "c \<in> set (digits (n div 10)) \<or> c = 48 + n mod 10"
      using "1.prems" by (auto simp add: digits.simps [of n])
    then show ?thesis
      using "1.IH" [OF False] by auto
  qed
qed

lemma str_int_range: "c \<in> set (str_int i) \<Longrightarrow> c < 128 \<and> c \<noteq> LF"
  using digits_range [of c "nat (- i)"] digits_range [of c "nat i"]
  by (auto simp add: str_int_def LF_def split: if_splits)

lemma encode_port: "encode_utf8 (replace_lf (str_int i)) = Inr (map of_nat (str_int i))"
proof -
  have "LF \<notin> set (str_int i)"
    using str_int_range by blast
  then have "replace_lf (str_int i) = str_int i"
    by (rule replace_lf_plain)
  moreover have "\<forall>c \<in> set (str_int i). c < 128"
    using str_int_range by blast
  ultimately show ?thesis
    by (simp add: encode_utf8_ascii)
qed

lemma replace_lf_valid: "\<forall>c \<in> set s. valid_cp c \<Longrightarrow> \<forall>c \<in> set (replace_lf s). valid_cp c"
  by (induction s) (auto simp add: valid_cp_def CR_def LF_def)

lemma make_response_parts:
  assumes "encode_utf8 (replace_lf ip) = Inr ipb"
  shows "make_response ip port =
           Inr (reply_head @ ipb @ [0x3A] @ map of_nat (str_int port) @ reply_tail)"
proof -
  have colon: "encode_utf8 (replace_lf [58]) = Inr [0x3A]"
    by (simp add: LF_def encode_cp_def)
  have "make_response ip port =
      encode_utf8 (replace_lf template_head @ replace_lf ip @ replace_lf [58] @
        replace_lf (str_int port) @ replace_lf template_tail)"
    by (simp add: make_response_def format_template replace_lf_append)
  also have "\<dots> = Inr (reply_head @ ipb @ [0x3A] @ map of_nat (str_int port) @ reply_tail)"
    unfolding encode_utf8_append encode_head encode_tail encode_port colon assms by simp
  finally show ?thesis .
qed


lemma make_response_crlf: "make_response ip port = Inr bs \<Longrightarrow> no_bare_lf bs"
  unfolding make_response_def format_template no_bare_lf_def
  by (simp add: encode_replace_lf_crlf)

lemma reply_tail_end:
  "reply_tail =
     (ascii_bytes ''/description.xml'' @ CRLF @
      crlf_lines
        [''SERVER: FreeRTOS/6.0.5, UPnP/1.0, IpBridge/0.1'', ''hue-bridgeid: 1234'',
         ''ST: urn:schemas-upnp-org:device:basic:1''] @
      ascii_bytes ''USN: uuid:Socket-1_0-221438K0100073::urn:schemas-upnp-org:device:basic:1'') @
     CRLF @ CRLF"
  by (simp add: reply_tail_def ascii_bytes_def)

lemma example_ip_encoded:
  "encode_utf8 (replace_lf (ustr ''10.0.0.5'')) = Inr (ascii_bytes ''10.0.0.5'')"
  by (simp add: ustr_def ascii_bytes_def LF_def encode_cp_def)

lemma example_port_str: "map of_nat (str_int 8300) = (ascii_bytes ''8300'' :: pybytes)"
  by (simp add: str_int_def digits.simps ascii_bytes_def)

lemma example_reply: "make_response (ustr ''10.0.0.5'') 8300 = Inr expected_reply"
proof -
  have "expected_reply =
      reply_head @ ascii_bytes ''10.0.0.5'' @ [0x3A] @ ascii_bytes ''8300'' @ reply_tail"
    by (simp add: expected_reply_def reply_head_def reply_tail_def ascii_bytes_def)
  then show ?thesis
    using make_response_parts [OF example_ip_encoded, of 8300] by (simp add: example_port_str)
qed


subsection \<open>The reply is fixed at construction\<close>

lemma step_response:
  assumes "step st e = Some st'"
  shows "upnp_response (self st') = upnp_response (self st) \<and>
         (\<exists>new. replies (log st') = replies (log st) @ new \<and>
                (\<forall>x \<in> set new. fst x = upnp_response (self st)))"
proof (cases e)
  case Stop
  then show ?thesis using assms by (auto simp add: set_interrupted_def)
next
  case Check
  then show ?thesis
    using assms
    by (auto simp add: check_top_def clean_socket_close_def emit_def replies_append
        split: if_splits)
next
  case (Select out)
  show ?thesis
  proof (cases out)
    case Timeout
    then show ?thesis using assms Select by (auto split: if_splits)
  next
    case (Readable d a so)
    then show ?thesis
      using assms Select
      by (cases so)
        (auto simp add: handle_def respond_def emit_def die_def replies_append
          split: if_splits)
  next
    case SockError
    then show ?thesis
      using assms Select
      by (auto simp add: clean_socket_close_def emit_def replies_append split: if_splits)
  next
    case SelectRaises
    then show ?thesis
      using assms Select
      by (auto simp add: emit_def die_def replies_append split: if_splits)
  qed
qed

lemma exec_response:
  "exec st es = Some st' \<Longrightarrow>
     upnp_response (self st') = upnp_response (self st) \<and>
     (\<exists>new. replies (log st') = replies (log st) @ new \<and>
            (\<forall>x \<in> set new. fst x = upnp_response (self st)))"
proof (induction es arbitrary: st)
  case Nil
  then show ?case by simp
next
  case (Cons e es)
  then obtain st1 where s1: "step st e = Some st1" and rest: "exec st1 es = Some st'"
    by (auto split: option.splits)
  from step_response [OF s1]
  obtain n1 where n1: "upnp_response (self st1) = upnp_response (self st)"
      "replies (log st1) = replies (log st) @ n1" "\<forall>x \<in> set n1. fst x = upnp_response (self st)"
    by blast
  from Cons.IH [OF rest]
  obtain n2 where n2: "upnp_response (self st') = upnp_response (self st1)"
      "replies (log st') = replies (log st1) @ n2" "\<forall>x \<in> set n2. fst x = upnp_response (self st1)"
    by blast
  have "replies (log st') = replies (log st) @ (n1 @ n2)"
    using n1 n2 by simp
  moreover have "\<forall>x \<in> set (n1 @ n2). fst x = upnp_response (self st)"
    using n1 n2 by auto
  ultimately show ?case
    using n1(1) n2(1) by (metis (no_types))
qed

lemma run_init_response:
  "self (run_init fails st) = self st \<and> replies (log (run_init fails st)) = replies (log st)"
  by (simp add: run_init_def Let_def emit_def die_def replies_append)

lemma init_response:
  "init h l b ip port = Inr r \<Longrightarrow> make_response ip port = Inr (upnp_response r)"
  by (auto simp add: init_def split: sum.splits)

text \<open>
  C4. The reply stored by the constructor is a function of the advertise address and
  the advertise port alone: two responders constructed with the same two values store
  the same bytes, whatever their other parameters. The set-up and the steps of the loop
  leave the stored bytes as they are, and every reply sent in a run carries exactly the
  bytes stored when the run began.
\<close>

theorem response_fixed:
  assumes "init h l b ip port = Inr r" and "init h' l' b' ip port = Inr r'"
    and "start fails (new_thread r) = Inr st0" and "exec st0 es = Some st"
  shows "upnp_response r = upnp_response r' \<and>
         make_response ip port = Inr (upnp_response r) \<and>
         upnp_response (self st) = upnp_response r \<and>
         (\<forall>x \<in> set (replies (log st)). fst x = upnp_response r)"
proof -
  have a: "make_response ip port = Inr (upnp_response r)"
    using assms(1) by (rule init_response)
  have b: "make_response ip port = Inr (upnp_response r')"
    using assms(2) by (rule init_response)
  have st0: "st0 = run_init fails (new_thread r)"
    using assms(3) by (simp add: start_def new_thread_def)
  have c: "self st0 = r" "replies (log st0) = []"
    using run_init_response [of fails "new_thread r"] by (simp_all add: st0 new_thread_def)
  from exec_response [OF assms(4)] c
  have "upnp_response (self st) = upnp_response r"
    "\<forall>x \<in> set (replies (log st)). fst x = upnp_response r"
    by auto
  then show ?thesis using a b by simp
qed

theorem response_fixed_witness:
  "upnp_response (built_responder (ustr ''192.168.1.2'') 1900 True) =
     upnp_response (built_responder (ustr ''0.0.0.0'') 80 False) \<and>
   make_response (ustr ''10.0.0.5'') 8300 = Inr expected_reply \<and>
   map fst (replies answered_once) = [expected_reply]"
proof -
  let ?r = "built_responder (ustr ''192.168.1.2'') 1900 True"
  let ?r' = "built_responder (ustr ''0.0.0.0'') 80 False"
  let ?begun = "run_init no_failure (new_thread ?r)"
  let ?final = "\<lparr>self = ?r, phase = AtTop, log = answered_once\<rparr>"
  have i1: "init (ustr ''192.168.1.2'') 1900 True (ustr ''10.0.0.5'') 8300 = Inr ?r"
    by (simp add: init_def example_reply built_responder_def)
  have i2: "init (ustr ''0.0.0.0'') 80 False (ustr ''10.0.0.5'') 8300 = Inr ?r'"
    by (simp add: init_def example_reply built_responder_def)
  have s: "start no_failure (new_thread ?r) = Inr ?begun"
    by (simp add: start_def new_thread_def)
  have nf: "\<forall>s. \<not> no_failure s"
    by (simp add: no_failure_def)
  have begun: "?begun =
      \<lparr>self = ?r, phase = AtTop,
       log = [Open Ssdp, SetBlocking False, SetReuseAddr, SetMulticastIf (ustr ''192.168.1.2''),
         AddMembership SSDP_GROUP (ustr ''192.168.1.2''), Bind [] 1900]\<rparr>"
    unfolding run_init_ok [OF nf] by (simp add: new_thread_def built_responder_def)
  have e: "exec ?begun [Check, Select (Readable msearch_datagram example_addr SendOk)] = Some ?final"
    unfolding begun using msearch_datagram_matches
    by (simp add: built_responder_def check_top_def handle_def respond_def emit_def
        answered_once_def)
  have u: "upnp_response ?r = expected_reply"
    by (simp add: built_responder_def)
  show ?thesis
    using response_fixed [OF i1 i2 s e] by (simp add: u answered_once_def)
qed


subsection \<open>Failure of the set-up\<close>

lemma all_init_steps:
  "(\<forall>s. \<not> fails s) \<longleftrightarrow>
     \<not> fails CreateSocket \<and> \<not> fails CallSetBlocking \<and> \<not> fails CallReuseAddr \<and>
     \<not> fails InetAton \<and> \<not> fails CallMulticastIf \<and> \<not> fails CallAddMembership \<and>
     \<not> fails CallBind"
proof
  assume "\<forall>s. \<not> fails s"
  then show "\<not> fails CreateSocket \<and> \<not> fails CallSetBlocking \<and> \<not> fails CallReuseAddr \<and>
     \<not> fails InetAton \<and> \<not> fails CallMulticastIf \<and> \<not> fails CallAddMembership \<and>
     \<not> fails CallBind"
    by simp
next
  assume a: "\<not> fails CreateSocket \<and> \<not> fails CallSetBlocking \<and> \<not> fails CallReuseAddr \<and>
     \<not> fails InetAton \<and> \<not> fails CallMulticastIf \<and> \<not> fails CallAddMembership \<and>
     \<not> fails CallBind"
  show "\<forall>s. \<not> fails s"
  proof
    fix s show "\<not> fails s" using a by (cases s) simp_all
  qed
qed

lemma run_init_phase:
  "phase (run_init fails st) = (if \<forall>s. \<not> fails s then AtTop else Died OSError)"
  unfolding all_init_steps by (simp add: run_init_def Let_def emit_def die_def)

lemma step_dead:
  assumes "phase st = Died x"
  shows "step st e = (if e = Stop then Some (set_interrupted st) else None)"
  using assms by (cases e) simp_all

lemma exec_dead:
  "phase st = Died x \<Longrightarrow> exec st es = Some st' \<Longrightarrow> phase st' = Died x \<and> log st' = log st"
proof (induction es arbitrary: st)
  case Nil
  then show ?case by simp
next
  case (Cons e es)
  then have e: "e = Stop" and rest: "exec (set_interrupted st) es = Some st'"
    by (auto simp add: step_dead split: if_splits)
  have "phase (set_interrupted st) = Died x"
    using Cons.prems(1) by (simp add: set_interrupted_def)
  from Cons.IH [OF this rest] show ?case
    by (simp add: set_interrupted_def)
qed

lemma join_dead: "phase st = Died x \<Longrightarrow> join st es = Some (Inr st)"
  by (simp add: join.simps exited_def)

text \<open>
  C7, as stated, fails: with \<open>bind\<close> failing, \<open>start\<close> returns to its caller
  without an error, and so does a later \<open>stop\<close>; the exception has ended the thread
  of the responder and reached nobody else.
\<close>

theorem init_failure_counterexample:
  "start bind_fails (new_thread example_responder) = Inr died_at_bind \<and>
   stop died_at_bind [] = Some (Inr (set_interrupted died_at_bind))"
  by (simp add: start_def new_thread_def run_init_def Let_def emit_def die_def bind_fails_def
      died_at_bind_def example_responder_def stop_def join.simps exited_def set_interrupted_def)


text \<open>
  C7, amended. If any call of the set-up fails, the exception leaves \<open>run\<close> before
  the loop is entered and ends the thread of the responder: no step of the loop can be
  taken from then on, nothing is received and no reply is sent. The loop is entered
  only after every call of the set-up has succeeded. The exception is not handed to
  the caller of \<open>start\<close> or \<open>stop\<close>: both return without an error.
\<close>

theorem init_failure_ends_thread:
  assumes "fails s"
  shows "phase (run_init fails st) = Died OSError \<and>
         replies (log (run_init fails st)) = replies (log st) \<and>
         (\<forall>e. e \<noteq> Stop \<longrightarrow> step (run_init fails st) e = None) \<and>
         (\<forall>es st'. exec (run_init fails st) es = Some st' \<longrightarrow>
            phase st' = Died OSError \<and> log st' = log (run_init fails st)) \<and>
         (\<forall>fails'. phase (run_init fails' st) = AtTop \<longrightarrow> (\<forall>s'. \<not> fails' s')) \<and>
         start fails (new_thread r) = Inr (run_init fails (new_thread r)) \<and>
         stop (run_init fails st) es0 = Some (Inr (set_interrupted (run_init fails st)))"
proof -
  have dead: "phase (run_init fails st) = Died OSError"
    using assms by (auto simp add: run_init_phase)
  have a: "\<forall>e. e \<noteq> Stop \<longrightarrow> step (run_init fails st) e = None"
    using dead by (simp add: step_dead)
  have b: "\<forall>es st'. exec (run_init fails st) es = Some st' \<longrightarrow>
      phase st' = Died OSError \<and> log st' = log (run_init fails st)"
    using exec_dead [OF dead] by blast
  have c: "\<forall>fails'. phase (run_init fails' st) = AtTop \<longrightarrow> (\<forall>s'. \<not> fails' s')"
    by (simp add: run_init_phase split: if_splits)
  have d: "start fails (new_thread r) = Inr (run_init fails (new_thread r))"
    by (simp add: start_def new_thread_def)
  have "phase (set_interrupted (run_init fails st)) = Died OSError"
    using dead by (simp add: set_interrupted_def)
  then have e: "stop (run_init fails st) es0 = Some (Inr (set_interrupted (run_init fails st)))"
    unfolding stop_def by (rule join_dead)
  show ?thesis
    using dead a b c d e run_init_response [of fails st] by (intro conjI) simp_all
qed

theorem init_failure_ends_thread_witness:
  "phase (run_init bind_fails (new_thread example_responder)) = Died OSError \<and>
   replies (log (run_init bind_fails (new_thread example_responder))) = [] \<and>
   step (run_init bind_fails (new_thread example_responder)) Check = None \<and>
   step (run_init bind_fails (new_thread example_responder)) (Select Timeout) = None"
proof -
  have f: "bind_fails CallBind"
    by (simp add: bind_fails_def)
  note inst = init_failure_ends_thread [where fails = bind_fails and s = CallBind
      and st = "new_thread example_responder", OF f]
  have "replies (log (new_thread example_responder)) = []"
    by (simp add: new_thread_def)
  then show ?thesis
    using inst by auto
qed


subsection \<open>Stopping the thread\<close>

lemma thread_inv_run_init: "thread_inv (run_init fails (new_thread r))"
  by (simp add: run_init_def Let_def emit_def die_def thread_inv_def new_thread_def
      opened_def closed_def finalized_def released_def)

lemma thread_inv_set_interrupted: "thread_inv st \<Longrightarrow> thread_inv (set_interrupted st)"
  by (simp add: thread_inv_def set_interrupted_def split: phase.splits)

lemma thread_inv_step:
  assumes "thread_inv st" and "step st e = Some st'"
  shows "thread_inv st'"
proof (cases e)
  case Stop
  then show ?thesis using assms thread_inv_set_interrupted by auto
next
  case Check
  then show ?thesis
    using assms
    by (auto simp add: thread_inv_def check_top_def clean_socket_close_def emit_def
        opened_def closed_def finalized_def released_def split: if_splits)
next
  case (Select out)
  show ?thesis
  proof (cases out)
    case Timeout
    then show ?thesis
      using assms Select by (auto simp add: thread_inv_def split: if_splits)
  next
    case (Readable d a so)
    then show ?thesis
      using assms Select
      by (cases so)
        (auto simp add: thread_inv_def handle_def respond_def emit_def die_def
          opened_def closed_def finalized_def released_def split: if_splits)
  next
    case SockError
    then show ?thesis
      using assms Select
      by (auto simp add: thread_inv_def clean_socket_close_def emit_def
          opened_def closed_def finalized_def released_def split: if_splits)
  next
    case SelectRaises
    then show ?thesis
      using assms Select
      by (auto simp add: thread_inv_def emit_def die_def
          opened_def closed_def finalized_def released_def split: if_splits)
  qed
qed

lemma thread_inv_exec: "thread_inv st \<Longrightarrow> exec st es = Some st' \<Longrightarrow> thread_inv st'"
proof (induction es arbitrary: st)
  case Nil
  then show ?case by simp
next
  case (Cons e es)
  then obtain st1 where "step st e = Some st1" "exec st1 es = Some st'"
    by (auto split: option.splits)
  then show ?case using Cons.IH thread_inv_step [OF Cons.prems(1)] by blast
qed

lemma step_exited:
  assumes "exited st"
  shows "step st e = (if e = Stop then Some (set_interrupted st) else None)"
  using assms by (cases e) (auto simp add: exited_def split: phase.splits)

lemma exec_exited:
  "exited st \<Longrightarrow> exec st es = Some st' \<Longrightarrow> phase st' = phase st \<and> log st' = log st"
proof (induction es arbitrary: st)
  case Nil
  then show ?case by simp
next
  case (Cons e es)
  then have rest: "exec (set_interrupted st) es = Some st'"
    by (auto simp add: step_exited split: if_splits)
  have "exited (set_interrupted st)"
    using Cons.prems(1) by (simp add: set_interrupted_def exited_def)
  from Cons.IH [OF this rest] show ?case
    by (simp add: set_interrupted_def)
qed

lemma step_flag: "interrupted (self st) \<Longrightarrow> step st e = Some st' \<Longrightarrow> interrupted (self st')"
proof (cases e)
  case Stop
  assume "interrupted (self st)" "step st e = Some st'"
  then show ?thesis using Stop by (auto simp add: set_interrupted_def)
next
  case Check
  assume "interrupted (self st)" "step st e = Some st'"
  then show ?thesis
    using Check by (auto simp add: check_top_def clean_socket_close_def emit_def split: if_splits)
next
  case (Select out)
  assume a: "interrupted (self st)" "step st e = Some st'"
  show ?thesis
  proof (cases out)
    case Timeout
    then show ?thesis using a Select by (auto split: if_splits)
  next
    case (Readable d b so)
    then show ?thesis
      using a Select
      by (cases so) (auto simp add: handle_def respond_def emit_def die_def split: if_splits)
  next
    case SockError
    then show ?thesis
      using a Select by (auto simp add: clean_socket_close_def emit_def split: if_splits)
  next
    case SelectRaises
    then show ?thesis
      using a Select by (auto simp add: emit_def die_def split: if_splits)
  qed
qed

lemma join_result:
  "join st es = Some (Inr st') \<Longrightarrow> interrupted (self st) \<Longrightarrow> thread_inv st \<Longrightarrow>
     exited st' \<and> interrupted (self st') \<and> thread_inv st'"
proof (induction st es rule: join.induct)
  case (1 st es)
  show ?case
  proof (cases "exited st")
    case True
    then have "st' = st"
      using "1.prems"(1) by (simp add: join.simps [of st es] split: if_splits)
    then show ?thesis using True "1.prems" by simp
  next
    case False
    have ns: "phase st \<noteq> NotStarted"
      using "1.prems"(3) by (auto simp add: thread_inv_def)
    from "1.prems"(1) False ns
    obtain e es' st1 where es: "es = e # es'" and s1: "step st e = Some st1"
      and j: "join st1 es' = Some (Inr st')"
      by (auto simp add: join.simps [of st es] split: list.splits option.splits)
    have "interrupted (self st1)" "thread_inv st1"
      using step_flag [OF "1.prems"(2) s1] thread_inv_step [OF "1.prems"(3) s1] by simp_all
    then show ?thesis
      using "1.IH" [OF ns False es s1 j] by simp
  qed
qed

lemma join_exited: "thread_inv st \<Longrightarrow> exited st \<Longrightarrow> join st es = Some (Inr st)"
  by (auto simp add: join.simps [of st es] thread_inv_def)

lemma join_at_top:
  assumes "thread_inv st" and "phase st = AtTop" and "interrupted (self st)"
  shows "\<exists>st'. join st (Check # es) = Some (Inr st') \<and> phase st' = Stopped"
proof -
  let ?s = "(clean_socket_close Ssdp st)\<lparr>phase := Stopped\<rparr>"
  have "step st Check = Some ?s"
    using assms by (simp add: check_top_def)
  moreover have "join ?s es = Some (Inr ?s)"
    by (simp add: join.simps [of ?s es] exited_def)
  ultimately have "join st (Check # es) = Some (Inr ?s)"
    using assms(2) by (simp add: join.simps [of st "Check # es"] exited_def)
  then show ?thesis by simp
qed

lemma join_in_select:
  assumes "thread_inv st" and "phase st = InSelect" and "interrupted (self st)"
  shows "\<exists>st'. join st (Select out # Check # es) = Some (Inr st') \<and> exited st'"
proof -
  obtain st1 where s1: "step st (Select out) = Some st1"
    using assms(2) by simp
  have inv1: "thread_inv st1" and fl1: "interrupted (self st1)"
    using thread_inv_step [OF assms(1) s1] step_flag [OF assms(3) s1] by simp_all
  have unroll: "join st (Select out # Check # es) = join st1 (Check # es)"
    using assms(2) s1 by (simp add: join.simps [of st "Select out # Check # es"] exited_def)
  show ?thesis
  proof (cases "exited st1")
    case True
    then show ?thesis
      using unroll join_exited [OF inv1 True] by simp
  next
    case False
    have "phase st1 \<noteq> InSelect"
    proof (cases out)
      case Timeout
      then show ?thesis using s1 assms(2) by auto
    next
      case (Readable d a so)
      then show ?thesis
        using s1 assms(2)
        by (cases so) (auto simp add: handle_def respond_def emit_def die_def split: if_splits)
    next
      case SockError
      then show ?thesis using s1 assms(2) by (auto split: if_splits)
    next
      case SelectRaises
      then show ?thesis using s1 assms(2) by (auto simp add: die_def)
    qed
    then have "phase st1 = AtTop"
      using False inv1 by (cases "phase st1") (simp_all add: exited_def thread_inv_def)
    from join_at_top [OF inv1 this fl1, of es] show ?thesis
      using unroll by (auto simp add: exited_def)
  qed
qed

lemma step_no_death:
  assumes "step st e = Some st'" and "\<not> raises e" and "\<forall>x. phase st \<noteq> Died x"
  shows "\<forall>x. phase st' \<noteq> Died x"
proof (cases e)
  case Stop
  then show ?thesis using assms by (auto simp add: set_interrupted_def)
next
  case Check
  then show ?thesis using assms by (auto simp add: check_top_def split: if_splits)
next
  case (Select out)
  show ?thesis
  proof (cases out)
    case Timeout
    then show ?thesis using assms Select by (auto split: if_splits)
  next
    case (Readable d a so)
    then have "so = SendOk"
      using assms(2) Select by (cases so) simp_all
    then show ?thesis
      using assms(1) Select Readable
      by (auto simp add: handle_def respond_def split: if_splits)
  next
    case SockError
    then show ?thesis using assms Select by (auto split: if_splits)
  next
    case SelectRaises
    then show ?thesis using assms Select by simp
  qed
qed

lemma exec_no_death:
  "exec st es = Some st' \<Longrightarrow> \<forall>e \<in> set es. \<not> raises e \<Longrightarrow> \<forall>x. phase st \<noteq> Died x \<Longrightarrow>
     \<forall>x. phase st' \<noteq> Died x"
proof (induction es arbitrary: st)
  case Nil
  then show ?case by simp
next
  case (Cons e es)
  then obtain st1 where s1: "step st e = Some st1" and rest: "exec st1 es = Some st'"
    by (auto split: option.splits)
  have "\<forall>x. phase st1 \<noteq> Died x"
    using step_no_death [OF s1] Cons.prems by simp
  then show ?case using Cons.IH [OF rest] Cons.prems(2) by simp
qed

lemma join_no_death:
  "join st es = Some (Inr st') \<Longrightarrow> \<forall>e \<in> set es. \<not> raises e \<Longrightarrow> \<forall>x. phase st \<noteq> Died x \<Longrightarrow>
     \<forall>x. phase st' \<noteq> Died x"
proof (induction st es rule: join.induct)
  case (1 st es)
  show ?case
  proof (cases "phase st = NotStarted \<or> exited st")
    case True
    then have "st' = st"
      using "1.prems"(1) by (auto simp add: join.simps [of st es] split: if_splits)
    then show ?thesis using "1.prems"(3) by simp
  next
    case False
    from "1.prems"(1) False
    obtain e es' st1 where es: "es = e # es'" and s1: "step st e = Some st1"
      and j: "join st1 es' = Some (Inr st')"
      by (auto simp add: join.simps [of st es] split: list.splits option.splits)
    have "\<forall>x. phase st1 \<noteq> Died x"
      using step_no_death [OF s1] "1.prems" es by simp
    then show ?thesis
      using "1.IH" [OF _ _ es s1 j] False "1.prems"(2) es by simp
  qed
qed

lemma step_ends:
  assumes "step s e = Some s'" and "\<not> exited s" and "exited s'"
  shows "(phase s' = Stopped \<and> interrupted (self s) \<and> (e = Check \<or> e = Select SockError) \<and>
            log s' = log s @ [LogInfo, Close Ssdp]) \<or>
         ((\<exists>x. phase s' = Died x) \<and> raises e \<and> interrupted (self s') = interrupted (self s))"
proof (cases e)
  case Stop
  then show ?thesis using assms by (auto simp add: set_interrupted_def exited_def)
next
  case Check
  then show ?thesis
    using assms
    by (auto simp add: check_top_def clean_socket_close_def emit_def exited_def split: if_splits)
next
  case (Select out)
  show ?thesis
  proof (cases out)
    case Timeout
    then show ?thesis using assms Select by (auto simp add: exited_def split: if_splits)
  next
    case (Readable d a so)
    then show ?thesis
      using assms Select
      by (cases so)
        (auto simp add: handle_def respond_def emit_def die_def exited_def split: if_splits)
  next
    case SockError
    then show ?thesis
      using assms Select
      by (auto simp add: clean_socket_close_def emit_def exited_def split: if_splits)
  next
    case SelectRaises
    then show ?thesis
      using assms Select by (auto simp add: emit_def die_def exited_def split: if_splits)
  qed
qed

text \<open>
  C2, as stated, fails: the loop is also ended without the flag ever being set, by an
  exception that leaves \<open>run\<close>. Here \<open>sendto\<close> raises while a datagram is
  answered, and \<open>select\<close> raises an exception that is not a socket error; in both
  runs the thread has ended and the flag is clear.
\<close>

theorem loop_ended_unflagged_counterexample:
  "exec (run_init no_failure (new_thread example_responder))
     [Check, Select (Readable msearch_datagram example_addr SendFails)] = Some died_at_send \<and>
   exited died_at_send \<and> \<not> interrupted (self died_at_send) \<and>
   exec (run_init no_failure (new_thread example_responder)) [Check, Select SelectRaises] =
     Some died_at_select \<and>
   exited died_at_select \<and> \<not> interrupted (self died_at_select)"
proof -
  have nf: "\<forall>s. \<not> no_failure s"
    by (simp add: no_failure_def)
  have a: "exec (run_init no_failure (new_thread example_responder))
      [Check, Select (Readable msearch_datagram example_addr SendFails)] = Some died_at_send"
    unfolding run_init_ok [OF nf] using msearch_datagram_matches
    by (simp add: new_thread_def example_responder_def check_top_def handle_def respond_def
        emit_def die_def died_at_send_def)
  have b: "exited died_at_send \<and> \<not> interrupted (self died_at_send)"
    by (simp add: died_at_send_def exited_def example_responder_def)
  have c: "exec (run_init no_failure (new_thread example_responder)) [Check, Select SelectRaises] =
      Some died_at_select"
    unfolding run_init_ok [OF nf]
    by (simp add: new_thread_def example_responder_def check_top_def emit_def die_def
        died_at_select_def)
  have d: "exited died_at_select \<and> \<not> interrupted (self died_at_select)"
    by (simp add: died_at_select_def exited_def example_responder_def)
  show ?thesis
    using a b c d by (intro conjI) simp_all
qed

text \<open>
  C2, amended. \<open>stop\<close> sets the flag and then waits for the thread to end. For a
  thread that was started: when \<open>stop\<close> returns it returns without an error, the
  thread has ended, the flag is set, the listening socket, if it was opened, has been
  given back, and no event that follows changes the log, so no further reply is sent.
  If the thread had already ended, \<open>stop\<close> returns at once. If it has not, the test
  at the head of the loop ends it, and from inside \<open>select\<close> one outcome and that
  test do. A step ends the thread in one of two ways only. Either \<open>run\<close> returns:
  then the step found the flag set, at the head of the loop or after a socket error,
  and it closes the listening socket. Or an exception leaves \<open>run\<close>, whether the
  flag is set or not: the socket of a reply cannot be created, \<open>sendto\<close> raises, or
  \<open>select\<close> raises an exception that is not a socket error; the interpreter then
  closes the listening socket. When no such exception occurs and the set-up has not
  failed, the thread ends by \<open>run\<close> returning.
\<close>

theorem stop_contract:
  assumes "start fails (new_thread r) = Inr st0" and "exec st0 es0 = Some st"
  shows "stop st es = join (set_interrupted st) es \<and>
         stop st es \<noteq> Some (Inl err) \<and>
         (\<forall>st'. stop st es = Some (Inr st') \<longrightarrow>
            exited st' \<and> interrupted (self st') \<and>
            opened Ssdp (log st') \<le> 1 \<and> released Ssdp (log st') = opened Ssdp (log st') \<and>
            (phase st' = Stopped \<longrightarrow> opened Ssdp (log st') = 1 \<and> closed Ssdp (log st') = 1) \<and>
            (\<forall>es' st''. exec st' es' = Some st'' \<longrightarrow> log st'' = log st' \<and> phase st'' = phase st')) \<and>
         (exited st \<longrightarrow> stop st es = Some (Inr (set_interrupted st))) \<and>
         (phase st = AtTop \<longrightarrow>
            (\<exists>st'. stop st (Check # es) = Some (Inr st') \<and> phase st' = Stopped)) \<and>
         (phase st = InSelect \<longrightarrow>
            (\<exists>st'. stop st (Select out # Check # es) = Some (Inr st') \<and> exited st')) \<and>
         ((\<forall>s. \<not> fails s) \<and> (\<forall>e \<in> set (es0 @ es). \<not> raises e) \<longrightarrow>
            (\<forall>st'. stop st es = Some (Inr st') \<longrightarrow> phase st' = Stopped)) \<and>
         (\<forall>s e s'. step s e = Some s' \<and> \<not> exited s \<and> exited s' \<longrightarrow>
            (phase s' = Stopped \<and> interrupted (self s) \<and> (e = Check \<or> e = Select SockError) \<and>
               log s' = log s @ [LogInfo, Close Ssdp]) \<or>
            ((\<exists>x. phase s' = Died x) \<and> raises e \<and> interrupted (self s') = interrupted (self s)))"
proof -
  let ?f = "set_interrupted st"
  have st0: "st0 = run_init fails (new_thread r)"
    using assms(1) by (simp add: start_def new_thread_def)
  have inv: "thread_inv st"
    using thread_inv_exec [OF _ assms(2)] thread_inv_run_init st0 by simp
  have invf: "thread_inv ?f"
    using inv by (rule thread_inv_set_interrupted)
  have flag: "interrupted (self ?f)"
    by (simp add: set_interrupted_def)
  have ph: "phase ?f = phase st" and ex: "exited ?f = exited st"
    by (simp_all add: set_interrupted_def exited_def)
  have p1: "stop st es = join ?f es"
    by (simp add: stop_def)
  have p2: "stop st es \<noteq> Some (Inl err)"
  proof
    assume "stop st es = Some (Inl err)"
    then have j: "join ?f es = Some (Inl err)" by (simp add: stop_def)
    have "\<And>s. thread_inv s \<Longrightarrow> join s es = Some (Inl err) \<Longrightarrow> False"
    proof -
      fix s show "thread_inv s \<Longrightarrow> join s es = Some (Inl err) \<Longrightarrow> False"
      proof (induction s es rule: join.induct)
        case (1 s es)
        have ns: "phase s \<noteq> NotStarted"
          using "1.prems"(1) by (auto simp add: thread_inv_def)
        show ?case
        proof (cases "exited s")
          case True
          then show ?thesis using "1.prems"(2) ns by (simp add: join.simps [of s es])
        next
          case False
          from "1.prems"(2) False ns
          obtain e es' s1 where es: "es = e # es'" and s1: "step s e = Some s1"
            and j: "join s1 es' = Some (Inl err)"
            by (auto simp add: join.simps [of s es] split: list.splits option.splits)
          show ?thesis
            using "1.IH" [OF ns False es s1 thread_inv_step [OF "1.prems"(1) s1] j] .
        qed
      qed
    qed
    from this [OF invf j] show False .
  qed
  have p3: "\<forall>st'. stop st es = Some (Inr st') \<longrightarrow>
      exited st' \<and> interrupted (self st') \<and>
      opened Ssdp (log st') \<le> 1 \<and> released Ssdp (log st') = opened Ssdp (log st') \<and>
      (phase st' = Stopped \<longrightarrow> opened Ssdp (log st') = 1 \<and> closed Ssdp (log st') = 1) \<and>
      (\<forall>es' st''. exec st' es' = Some st'' \<longrightarrow> log st'' = log st' \<and> phase st'' = phase st')"
  proof (intro allI impI)
    fix st' assume "stop st es = Some (Inr st')"
    then have j: "join ?f es = Some (Inr st')" by (simp add: stop_def)
    from join_result [OF j flag invf]
    have r: "exited st'" "interrupted (self st')" "thread_inv st'" by simp_all
    have given_back: "opened Ssdp (log st') \<le> 1 \<and> released Ssdp (log st') = opened Ssdp (log st')"
      using r(1) r(3) by (cases "phase st'") (simp_all add: thread_inv_def exited_def released_def)
    have "phase st' = Stopped \<longrightarrow> opened Ssdp (log st') = 1 \<and> closed Ssdp (log st') = 1"
      using r(3) by (auto simp add: thread_inv_def)
    moreover have "\<forall>es' st''. exec st' es' = Some st'' \<longrightarrow>
        log st'' = log st' \<and> phase st'' = phase st'"
      using exec_exited [OF r(1)] by blast
    ultimately show "exited st' \<and> interrupted (self st') \<and>
      opened Ssdp (log st') \<le> 1 \<and> released Ssdp (log st') = opened Ssdp (log st') \<and>
      (phase st' = Stopped \<longrightarrow> opened Ssdp (log st') = 1 \<and> closed Ssdp (log st') = 1) \<and>
      (\<forall>es' st''. exec st' es' = Some st'' \<longrightarrow> log st'' = log st' \<and> phase st'' = phase st')"
      using r given_back by blast
  qed
  have p4: "exited st \<longrightarrow> stop st es = Some (Inr ?f)"
    using join_exited [OF invf] ex by (simp add: stop_def)
  have p5: "phase st = AtTop \<longrightarrow>
      (\<exists>st'. stop st (Check # es) = Some (Inr st') \<and> phase st' = Stopped)"
    using join_at_top [OF invf _ flag] ph by (simp add: stop_def)
  have p6: "phase st = InSelect \<longrightarrow>
      (\<exists>st'. stop st (Select out # Check # es) = Some (Inr st') \<and> exited st')"
    using join_in_select [OF invf _ flag] ph by (simp add: stop_def)
  have p7: "(\<forall>s. \<not> fails s) \<and> (\<forall>e \<in> set (es0 @ es). \<not> raises e) \<longrightarrow>
      (\<forall>st'. stop st es = Some (Inr st') \<longrightarrow> phase st' = Stopped)"
  proof (intro impI allI)
    fix st'
    assume ok: "(\<forall>s. \<not> fails s) \<and> (\<forall>e \<in> set (es0 @ es). \<not> raises e)"
      and "stop st es = Some (Inr st')"
    then have j: "join ?f es = Some (Inr st')" by (simp add: stop_def)
    have "\<forall>x. phase st0 \<noteq> Died x"
      using ok by (simp add: st0 run_init_phase)
    then have "\<forall>x. phase st \<noteq> Died x"
      using exec_no_death [OF assms(2)] ok by simp
    then have "\<forall>x. phase ?f \<noteq> Died x"
      using ph by simp
    then have "\<forall>x. phase st' \<noteq> Died x"
      using join_no_death [OF j] ok by simp
    moreover have "exited st'"
      using join_result [OF j flag invf] by simp
    ultimately show "phase st' = Stopped"
      by (cases "phase st'") (simp_all add: exited_def)
  qed
  have p8: "\<forall>s e s'. step s e = Some s' \<and> \<not> exited s \<and> exited s' \<longrightarrow>
      (phase s' = Stopped \<and> interrupted (self s) \<and> (e = Check \<or> e = Select SockError) \<and>
         log s' = log s @ [LogInfo, Close Ssdp]) \<or>
      ((\<exists>x. phase s' = Died x) \<and> raises e \<and> interrupted (self s') = interrupted (self s))"
    using step_ends by blast
  show ?thesis
    by (intro conjI) (rule p1, rule p2, rule p3, rule p4, rule p5, rule p6, rule p7, rule p8)
qed

theorem stop_contract_witness:
  "\<exists>st'. stop example_waiting [Select Timeout, Check] = Some (Inr st') \<and>
         phase st' = Stopped \<and> interrupted (self st') \<and>
         opened Ssdp (log st') = 1 \<and> closed Ssdp (log st') = 1 \<and>
         released Ssdp (log st') = opened Ssdp (log st')"
proof -
  let ?begun = "run_init no_failure (new_thread example_responder)"
  have nf: "\<forall>s. \<not> no_failure s"
    by (simp add: no_failure_def)
  have s: "start no_failure (new_thread example_responder) = Inr ?begun"
    by (simp add: start_def new_thread_def)
  have e: "exec ?begun [Check] = Some example_waiting"
    unfolding run_init_ok [OF nf]
    by (simp add: new_thread_def example_responder_def check_top_def example_waiting_def)
  have ph: "phase example_waiting = InSelect"
    by (simp add: example_waiting_def)
  note live = stop_contract [where out = Timeout and es = "[]", OF s e,
      THEN conjunct2, THEN conjunct2, THEN conjunct2, THEN conjunct2, THEN conjunct2,
      THEN conjunct1, THEN mp, OF ph]
  then obtain st' where st': "stop example_waiting [Select Timeout, Check] = Some (Inr st')"
    by blast
  note after = stop_contract [where es = "[Select Timeout, Check]", OF s e,
      THEN conjunct2, THEN conjunct2, THEN conjunct1, THEN spec, THEN mp, OF st']
  have ok: "(\<forall>s. \<not> no_failure s) \<and>
      (\<forall>e \<in> set ([Check] @ [Select Timeout, Check]). \<not> raises e)"
    by (simp add: no_failure_def)
  note clean = stop_contract [where es = "[Select Timeout, Check]", OF s e,
      THEN conjunct2, THEN conjunct2, THEN conjunct2, THEN conjunct2, THEN conjunct2,
      THEN conjunct2, THEN conjunct1, THEN mp, OF ok, THEN spec, THEN mp, OF st']
  show ?thesis
    using st' after clean by blast
qed

subsection \<open>The shape of the reply\<close>

lemma make_response_cases:
  "make_response ip port =
     (case encode_utf8 (replace_lf ip) of
        Inl e \<Rightarrow> Inl e
      | Inr ipb \<Rightarrow> Inr (reply_head @ ipb @ [0x3A] @ map of_nat (str_int port) @ reply_tail))"
proof -
  have colon: "encode_utf8 (replace_lf [58]) = Inr [0x3A]"
    by (simp add: LF_def encode_cp_def)
  have "make_response ip port =
      encode_utf8 (replace_lf template_head @ replace_lf ip @ replace_lf [58] @
        replace_lf (str_int port) @ replace_lf template_tail)"
    by (simp add: make_response_def format_template replace_lf_append)
  also have "\<dots> =
     (case encode_utf8 (replace_lf ip) of
        Inl e \<Rightarrow> Inl e
      | Inr ipb \<Rightarrow> Inr (reply_head @ ipb @ [0x3A] @ map of_nat (str_int port) @ reply_tail))"
    unfolding encode_utf8_append encode_head encode_tail encode_port colon
    by (simp split: sum.splits)
  finally show ?thesis .
qed

lemma decimal_value_snoc: "decimal_value (xs @ [c]) = 10 * decimal_value xs + (c - 48)"
  by (simp add: decimal_value_def)

lemma div_mod_digit: "(d::nat) < 10 \<Longrightarrow> (10 * v + d) div 10 = v \<and> (10 * v + d) mod 10 = d"
  by simp

lemma digits_value: "decimal_value (digits n) = n"
proof (induction n rule: digits.induct)
  case (1 n)
  show ?case
  proof (cases "n < 10")
    case True
    then show ?thesis by (simp add: digits.simps [of n] decimal_value_def)
  next
    case False
    then have "decimal_value (digits n) = 10 * decimal_value (digits (n div 10)) + n mod 10"
      by (simp add: digits.simps [of n] decimal_value_snoc)
    then show ?thesis using "1.IH" [OF False] by simp
  qed
qed

lemma digits_not_empty: "digits n \<noteq> []"
  by (simp add: digits.simps [of n])

lemma digits_canonical: "canonical_decimal (digits n)"
proof (induction n rule: digits.induct)
  case (1 n)
  show ?case
  proof (cases "n < 10")
    case True
    then have "digits n = [48 + n]"
      by (simp add: digits.simps [of n])
    then show ?thesis
      using True by (auto simp add: canonical_decimal_def is_digit_def)
  next
    case False
    have ih: "canonical_decimal (digits (n div 10))"
      using "1.IH" [OF False] .
    have "digits (n div 10) \<noteq> [48]"
    proof
      assume "digits (n div 10) = [48]"
      then have "decimal_value (digits (n div 10)) = 0"
        by (simp add: decimal_value_def)
      then show False using False by (simp add: digits_value)
    qed
    then have lead: "48 < hd (digits (n div 10))"
      using ih by (simp add: canonical_decimal_def)
    have all: "list_all is_digit (digits n)"
      unfolding list_all_iff is_digit_def
    proof
      fix x
      assume "x \<in> set (digits n)"
      then have "48 \<le> x \<and> x < 58" by (rule digits_range)
      then show "48 \<le> x \<and> x \<le> 57" by arith
    qed
    have "hd (digits n) = hd (digits (n div 10))"
      using False digits_not_empty [of "n div 10"] by (simp add: digits.simps [of n])
    then show ?thesis
      using lead all digits_not_empty [of n] by (simp add: canonical_decimal_def)
  qed
qed

lemma foldl_decimal_ge: "(v::nat) \<le> foldl (\<lambda>v c. 10 * v + (c - 48)) v s"
proof (induction s arbitrary: v)
  case Nil
  then show ?case by simp
next
  case (Cons c s)
  have "v \<le> 10 * v + (c - 48)" by simp
  also have "\<dots> \<le> foldl (\<lambda>v c. 10 * v + (c - 48)) (10 * v + (c - 48)) s"
    by (rule Cons.IH)
  finally show ?case by simp
qed

lemma decimal_value_pos: "s \<noteq> [] \<Longrightarrow> 48 < hd s \<Longrightarrow> 0 < decimal_value s"
proof (cases s)
  case Nil
  assume "s \<noteq> []"
  then show ?thesis using Nil by simp
next
  case (Cons c cs)
  assume "48 < hd s"
  then have "0 < c - 48" using Cons by simp
  also have "c - 48 \<le> foldl (\<lambda>v c. 10 * v + (c - 48)) (c - 48) cs"
    by (rule foldl_decimal_ge)
  finally show ?thesis using Cons by (simp add: decimal_value_def)
qed

text \<open>A number has one decimal numeral only, the one \<open>digits\<close> computes.\<close>

lemma canonical_unique: "canonical_decimal s \<Longrightarrow> digits (decimal_value s) = s"
proof (induction s rule: rev_induct)
  case Nil
  then show ?case by (simp add: canonical_decimal_def)
next
  case (snoc c xs)
  have c: "48 \<le> c" "c \<le> 57"
    using snoc.prems by (simp_all add: canonical_decimal_def is_digit_def)
  show ?case
  proof (cases xs)
    case Nil
    have "c - 48 < 10"
      using c by arith
    then have "digits (c - 48) = [48 + (c - 48)]"
      by (simp add: digits.simps [of "c - 48"])
    then show ?thesis using Nil c by (simp add: decimal_value_def)
  next
    case (Cons x xs')
    then have lead: "48 < hd xs"
      using snoc.prems by (simp add: canonical_decimal_def)
    have "canonical_decimal xs"
      using snoc.prems lead Cons by (simp add: canonical_decimal_def)
    then have ih: "digits (decimal_value xs) = xs"
      by (rule snoc.IH)
    let ?v = "decimal_value xs"
    have pos: "0 < ?v"
      using Cons lead by (intro decimal_value_pos) simp_all
    define N where "N = 10 * ?v + (c - 48)"
    have val: "decimal_value (xs @ [c]) = N"
      unfolding N_def by (rule decimal_value_snoc)
    have big: "\<not> N < 10"
      unfolding N_def using pos by simp
    have "c - 48 < 10"
      using c by arith
    then have dm: "N div 10 = ?v \<and> N mod 10 = c - 48"
      unfolding N_def by (rule div_mod_digit)
    have "digits N = digits (N div 10) @ [48 + N mod 10]"
      using big by (simp add: digits.simps [of N])
    then have "digits N = xs @ [c]"
      using dm ih c by simp
    then show ?thesis
      using val by simp
  qed
qed

lemma ascii_address: "\<forall>c \<in> set ip. c < 128 \<and> c \<noteq> LF \<Longrightarrow>
    encode_utf8 (replace_lf ip) = Inr (map of_nat ip)"
proof -
  assume a: "\<forall>c \<in> set ip. c < 128 \<and> c \<noteq> LF"
  then have "LF \<notin> set ip" by blast
  then have "replace_lf ip = ip" by (rule replace_lf_plain)
  then show ?thesis using a by (simp add: encode_utf8_ascii)
qed

text \<open>
  C5. The reply stored by the constructor is the template with the two fields
  replaced, every line feed turned into carriage return and line feed, encoded as
  UTF-8: the three header lines and the start of the \<open>LOCATION\<close> line, the
  address, a colon, the port, and the rest of the template. The port stands there as
  its decimal numeral, the only string of digits without a leading zero that has the
  value of the port, after a minus sign if the port is negative. An address of ASCII
  characters without a line feed stands there byte for byte. No byte \<open>0x0A\<close> in the
  reply stands without a byte \<open>0x0D\<close> before it, and the reply ends with an empty
  line. The constructor succeeds for every address without surrogate code points. For
  the address 10.0.0.5 and the port 8300 the reply is the nine lines of
  \<open>expected_reply\<close>, the fourth of which is
  \<open>LOCATION: http://10.0.0.5:8300/description.xml\<close>.
\<close>

theorem response_crlf_template:
  assumes "init h l b ip port = Inr r"
  shows "(\<exists>ipb ds. encode_utf8 (replace_lf ip) = Inr ipb \<and>
            ((\<forall>c \<in> set ip. c < 128 \<and> c \<noteq> LF) \<longrightarrow> ipb = map of_nat ip) \<and>
            canonical_decimal ds \<and> decimal_value ds = nat \<bar>port\<bar> \<and>
            (\<forall>ds'. canonical_decimal ds' \<and> decimal_value ds' = nat \<bar>port\<bar> \<longrightarrow> ds' = ds) \<and>
            str_int port = (if port < 0 then 45 # ds else ds) \<and>
            upnp_response r =
              reply_head @ ipb @ [0x3A] @ (if port < 0 then [0x2D] else []) @ map of_nat ds @
              reply_tail) \<and>
         no_bare_lf (upnp_response r) \<and>
         (\<exists>pre. upnp_response r = pre @ CRLF @ CRLF) \<and>
         ((\<forall>c \<in> set ip'. valid_cp c) \<longrightarrow> (\<exists>r'. init h' l' b' ip' port' = Inr r')) \<and>
         init h l b (ustr ''10.0.0.5'') 8300 = Inr (built_responder h l b)"
proof -
  define ds where "ds = digits (nat \<bar>port\<bar>)"
  have mk: "make_response ip port = Inr (upnp_response r)"
    using assms by (rule init_response)
  then obtain ipb where ipb: "encode_utf8 (replace_lf ip) = Inr ipb"
    and shape: "upnp_response r =
      reply_head @ ipb @ [0x3A] @ map of_nat (str_int port) @ reply_tail"
    by (auto simp add: make_response_cases split: sum.splits)
  have addr: "(\<forall>c \<in> set ip. c < 128 \<and> c \<noteq> LF) \<longrightarrow> ipb = map of_nat ip"
    using ipb ascii_address [of ip] by auto
  have d1: "canonical_decimal ds"
    unfolding ds_def by (rule digits_canonical)
  have d2: "decimal_value ds = nat \<bar>port\<bar>"
    unfolding ds_def by (rule digits_value)
  have d3: "\<forall>ds'. canonical_decimal ds' \<and> decimal_value ds' = nat \<bar>port\<bar> \<longrightarrow> ds' = ds"
    unfolding ds_def using canonical_unique by metis
  have d4: "str_int port = (if port < 0 then 45 # ds else ds)"
  proof (cases "port < 0")
    case True
    then have "nat (- port) = nat \<bar>port\<bar>" by simp
    then show ?thesis using True by (simp add: str_int_def ds_def)
  next
    case False
    then have "nat port = nat \<bar>port\<bar>" by simp
    then show ?thesis using False by (simp add: str_int_def ds_def)
  qed
  have shape': "upnp_response r =
      reply_head @ ipb @ [0x3A] @ (if port < 0 then [0x2D] else []) @ map of_nat ds @ reply_tail"
    unfolding shape d4 by simp
  have lf: "no_bare_lf (upnp_response r)"
    using mk by (rule make_response_crlf)
  have fin: "\<exists>pre. upnp_response r = pre @ CRLF @ CRLF"
    unfolding shape by (subst reply_tail_end) (metis append.assoc)
  have total: "(\<forall>c \<in> set ip'. valid_cp c) \<longrightarrow> (\<exists>r'. init h' l' b' ip' port' = Inr r')"
  proof
    assume "\<forall>c \<in> set ip'. valid_cp c"
    then obtain ipb' where "encode_utf8 (replace_lf ip') = Inr ipb'"
      using encode_utf8_valid [OF replace_lf_valid] by blast
    then show "\<exists>r'. init h' l' b' ip' port' = Inr r'"
      by (simp add: init_def make_response_cases)
  qed
  have ex: "init h l b (ustr ''10.0.0.5'') 8300 = Inr (built_responder h l b)"
    by (simp add: init_def example_reply built_responder_def)
  have first: "\<exists>ipb ds. encode_utf8 (replace_lf ip) = Inr ipb \<and>
      ((\<forall>c \<in> set ip. c < 128 \<and> c \<noteq> LF) \<longrightarrow> ipb = map of_nat ip) \<and>
      canonical_decimal ds \<and> decimal_value ds = nat \<bar>port\<bar> \<and>
      (\<forall>ds'. canonical_decimal ds' \<and> decimal_value ds' = nat \<bar>port\<bar> \<longrightarrow> ds' = ds) \<and>
      str_int port = (if port < 0 then 45 # ds else ds) \<and>
      upnp_response r =
        reply_head @ ipb @ [0x3A] @ (if port < 0 then [0x2D] else []) @ map of_nat ds @
        reply_tail"
    using ipb addr d1 d2 d3 d4 shape' by (intro exI conjI)
  show ?thesis
    by (intro conjI) (rule first, rule lf, rule fin, rule total, rule ex)
qed

theorem response_crlf_template_witness:
  "upnp_response (built_responder (ustr ''192.168.1.2'') 1900 True) = expected_reply \<and>
   no_bare_lf expected_reply \<and> (\<exists>pre. expected_reply = pre @ CRLF @ CRLF)"
proof -
  have i: "init (ustr ''192.168.1.2'') 1900 True (ustr ''10.0.0.5'') 8300 =
      Inr (built_responder (ustr ''192.168.1.2'') 1900 True)"
    by (simp add: init_def example_reply built_responder_def)
  have u: "upnp_response (built_responder (ustr ''192.168.1.2'') 1900 True) = expected_reply"
    by (simp add: built_responder_def)
  note inst = response_crlf_template [OF i, THEN conjunct2, unfolded u]
  show ?thesis
    using u inst by blast
qed

end
